theory Spec2Isabelle
  imports Complex_Main "HOL-Library.Multiset"
begin

section \<open>MVCAPA: the penalised optimal-partitioning engine of skchange\<close>

text \<open>
  A shallow embedding of \<^verbatim>\<open>skchange/anomaly_detectors/mvcapa.py\<close>.
  Floating-point numbers are idealised as \<^typ>\<open>real\<close>; array shapes and positions are
  naturals; a raised exception is the \<open>Inl\<close> branch of a sum.
  The \<open>nan\<close> that marks an unset entry of the backtrack array is \<open>None\<close>.
\<close>

subsection \<open>Errors and the NumPy primitives the module uses\<close>

datatype error = ValueError | IndexError

text \<open>\<^verbatim>\<open>for\<close> over a list with a body that may raise: the first exception ends the loop.\<close>

fun map_raise :: "('a \<Rightarrow> error + 'b) \<Rightarrow> 'a list \<Rightarrow> error + 'b list" where
  "map_raise f [] = Inr []"
| "map_raise f (x # xs) =
     (case f x of
        Inl e \<Rightarrow> Inl e
      | Inr y \<Rightarrow> (case map_raise f xs of Inl e \<Rightarrow> Inl e | Inr ys \<Rightarrow> Inr (y # ys)))"

text \<open>\<^verbatim>\<open>np.cumsum\<close>: running sums, same length as the argument.\<close>

fun cumsum_from :: "real \<Rightarrow> real list \<Rightarrow> real list" where
  "cumsum_from acc [] = []"
| "cumsum_from acc (x # xs) = (acc + x) # cumsum_from (acc + x) xs"

definition np_cumsum :: "real list \<Rightarrow> real list" where
  "np_cumsum xs = cumsum_from 0 xs"

text \<open>
  \<^verbatim>\<open>np.argmax\<close>: the position of the first occurrence of the maximum;
  \<^verbatim>\<open>ValueError\<close> on an empty array.
\<close>

definition argmax_list :: "real list \<Rightarrow> nat" where
  "argmax_list xs = length (takeWhile (\<lambda>x. x \<noteq> Max (set xs)) xs)"

definition np_argmax :: "real list \<Rightarrow> error + nat" where
  "np_argmax xs = (if xs = [] then Inl ValueError else Inr (argmax_list xs))"

text \<open>
  \<^verbatim>\<open>a.argsort()\<close>: positions of \<open>a\<close> in ascending order of value. NumPy's default sort
  does not promise an order among equal values; the model keeps them in position order.
  The values \<^verbatim>\<open>a[a.argsort()]\<close> do not depend on that choice.
\<close>

definition np_argsort :: "real list \<Rightarrow> nat list" where
  "np_argsort a = sort_key (\<lambda>j. a ! j) [0..<length a]"

text \<open>
  Elementwise arithmetic on two one-dimensional arrays with NumPy's broadcasting: equal
  lengths pair up, an array of length one is stretched, anything else is a
  \<^verbatim>\<open>ValueError\<close>.
\<close>

definition np_binop :: "(real \<Rightarrow> real \<Rightarrow> real) \<Rightarrow> real list \<Rightarrow> real list \<Rightarrow> error + real list" where
  "np_binop f xs ys =
     (if length xs = length ys then Inr (map2 f xs ys)
      else if length xs = 1 then Inr (map (\<lambda>y. f (hd xs) y) ys)
      else if length ys = 1 then Inr (map (\<lambda>x. f x (hd ys)) xs)
      else Inl ValueError)"

subsection \<open>The penalty builder\<close>

text \<open>
  \<open>n\<close>, \<open>p\<close> and \<open>n_params\<close> are array shapes and counts, hence naturals; the penalties
  are meant for \<open>n \<ge> 1\<close> (\<^verbatim>\<open>np.log(0)\<close> is \<open>-inf\<close>, not \<open>ln 0\<close>).
\<close>

definition dense_capa_penalty :: "nat \<Rightarrow> nat \<Rightarrow> nat \<Rightarrow> real \<Rightarrow> real \<times> real list" where
  "dense_capa_penalty n p n_params scale =
     (let psi = ln (real n);
          penalty = scale * (real (p * n_params) + 2 * sqrt (real (p * n_params) * psi) + 2 * psi)
      in (penalty, replicate p 0))"

definition sparse_capa_penalty :: "nat \<Rightarrow> nat \<Rightarrow> nat \<Rightarrow> real \<Rightarrow> real \<times> real list" where
  "sparse_capa_penalty n p n_params scale =
     (let psi = ln (real n);
          dense_penalty = 2 * scale * psi;
          sparse_penalty = 2 * scale * ln (real (n_params * p))
      in (dense_penalty, replicate p sparse_penalty))"

text \<open>\<^verbatim>\<open>np.diff\<close>: successive differences, one entry fewer than the argument.\<close>

definition np_diff :: "real list \<Rightarrow> real list" where
  "np_diff a = map2 (\<lambda>x y. y - x) a (tl a)"

text \<open>
  The intermediate policy. \<^verbatim>\<open>chi2.ppf\<close> and \<^verbatim>\<open>chi2.pdf\<close> belong to SciPy and are
  parameters here. \<^verbatim>\<open>np.diff(penalties, prepend=0.0, append=penalties[-1])\<close> is the
  difference of the array with \<open>0\<close> in front and its last entry repeated behind.
\<close>

definition intermediate_penalty_func ::
  "(real \<Rightarrow> nat \<Rightarrow> real) \<Rightarrow> (real \<Rightarrow> nat \<Rightarrow> real) \<Rightarrow> nat \<Rightarrow> nat \<Rightarrow> nat \<Rightarrow> real \<Rightarrow> nat \<Rightarrow> real" where
  "intermediate_penalty_func chi2_ppf chi2_pdf n p n_params scale j =
     (let psi = ln (real n);
          c_j = chi2_ppf (1 - real j / real p) n_params;
          f_j = chi2_pdf c_j n_params
      in scale *
           (2 * (psi + ln (real p))
            + real (j * n_params)
            + 2 * real p * c_j * f_j
            + 2 * sqrt ((real (j * n_params) + 2 * real p * c_j * f_j) * (psi + ln (real p)))))"

definition intermediate_capa_penalty ::
  "(real \<Rightarrow> nat \<Rightarrow> real) \<Rightarrow> (real \<Rightarrow> nat \<Rightarrow> real) \<Rightarrow> nat \<Rightarrow> nat \<Rightarrow> nat \<Rightarrow> real
   \<Rightarrow> error + real \<times> real list" where
  "intermediate_capa_penalty chi2_ppf chi2_pdf n p n_params scale =
     (if p < 2 then Inl ValueError
      else (let penalties =
                  map (intermediate_penalty_func chi2_ppf chi2_pdf n p n_params scale) [1..<p]
            in Inr (0, np_diff ([0] @ penalties @ [last penalties]))))"

text \<open>
  The combined policy. The three arrays of cumulative penalties have length \<open>p\<close>, so
  \<^verbatim>\<open>np.minimum\<close> pairs them entry by entry, and the assignment to
  \<^verbatim>\<open>pointwise_min_penalties[1:]\<close> leaves the leading \<open>0\<close> of \<^verbatim>\<open>np.zeros(p + 1)\<close>.
\<close>

definition combined_capa_penalty ::
  "(real \<Rightarrow> nat \<Rightarrow> real) \<Rightarrow> (real \<Rightarrow> nat \<Rightarrow> real) \<Rightarrow> nat \<Rightarrow> nat \<Rightarrow> nat \<Rightarrow> real
   \<Rightarrow> error + real \<times> real list" where
  "combined_capa_penalty chi2_ppf chi2_pdf n p n_params scale =
     (if p < 2 then Inr (dense_capa_penalty n 1 n_params scale)
      else (case dense_capa_penalty n p n_params scale of
              (dense_alpha, dense_betas) \<Rightarrow>
        (case sparse_capa_penalty n p n_params scale of
              (sparse_alpha, sparse_betas) \<Rightarrow>
        (case intermediate_capa_penalty chi2_ppf chi2_pdf n p n_params scale of
              Inl e \<Rightarrow> Inl e
            | Inr (intermediate_alpha, intermediate_betas) \<Rightarrow>
                (let dense_penalties = map (\<lambda>x. dense_alpha + x) (np_cumsum dense_betas);
                     sparse_penalties = map (\<lambda>x. sparse_alpha + x) (np_cumsum sparse_betas);
                     intermediate_penalties =
                       map (\<lambda>x. intermediate_alpha + x) (np_cumsum intermediate_betas);
                     pointwise_min_penalties =
                       0 # map2 min dense_penalties (map2 min sparse_penalties intermediate_penalties)
                 in Inr (0, np_diff pointwise_min_penalties))))))"

text \<open>
  The cumulative penalty of a policy at component count \<open>k\<close>: its \<open>alpha\<close> plus the sum
  of its first \<open>k\<close> betas.
\<close>

definition cumulative_penalty :: "real \<times> real list \<Rightarrow> nat \<Rightarrow> real" where
  "cumulative_penalty penalty k = fst penalty + sum_list (take k (snd penalty))"

text \<open>
  \<^verbatim>\<open>capa_penalty_factory\<close>: a callable is returned as it is, a known name gives its
  policy, any other name is a \<^verbatim>\<open>ValueError\<close>.
\<close>

datatype penalty_arg =
    PenaltyName string
  | PenaltyCallable "nat \<Rightarrow> nat \<Rightarrow> nat \<Rightarrow> real \<Rightarrow> error + real \<times> real list"

definition capa_penalty_factory ::
  "(real \<Rightarrow> nat \<Rightarrow> real) \<Rightarrow> (real \<Rightarrow> nat \<Rightarrow> real) \<Rightarrow> penalty_arg
   \<Rightarrow> error + (nat \<Rightarrow> nat \<Rightarrow> nat \<Rightarrow> real \<Rightarrow> error + real \<times> real list)" where
  "capa_penalty_factory chi2_ppf chi2_pdf penalty =
     (case penalty of
        PenaltyCallable f \<Rightarrow> Inr f
      | PenaltyName name \<Rightarrow>
          if name = ''dense'' then Inr (\<lambda>n p n_params scale. Inr (dense_capa_penalty n p n_params scale))
          else if name = ''sparse''
          then Inr (\<lambda>n p n_params scale. Inr (sparse_capa_penalty n p n_params scale))
          else if name = ''intermediate'' then Inr (intermediate_capa_penalty chi2_ppf chi2_pdf)
          else if name = ''combined'' then Inr (combined_capa_penalty chi2_ppf chi2_pdf)
          else Inl ValueError)"

subsection \<open>The saving capability\<close>

text \<open>
  Modelled from the spec: the saving functions of \<^verbatim>\<open>skchange.costs\<close> are not part
  of the sources at hand. Section 6 describes
  \<^verbatim>\<open>saving(params, starts[], ends[]) -> matrix[len(starts) x p]\<close>, one row per interval.
  Here \<open>saving s e\<close> is the row of component savings of the interval from \<open>s\<close> to \<open>e\<close>, with
  the parameters computed from the sequence already applied.
\<close>

definition saving_func :: "(nat \<Rightarrow> nat \<Rightarrow> real list) \<Rightarrow> nat list \<Rightarrow> nat list \<Rightarrow> real list list" where
  "saving_func saving starts ends = map2 saving starts ends"

subsection \<open>The penalised saving optimiser\<close>

text \<open>
  One pass of the \<^verbatim>\<open>for i in range(n_savings)\<close> loop of \<^verbatim>\<open>penalise_savings\<close>:
  sort the row in decreasing order, subtract \<open>betas\<close> position by position, take running
  sums, subtract \<open>alpha\<close>, and return the first maximum.
\<close>

definition penalise_row :: "real \<Rightarrow> real list \<Rightarrow> real list \<Rightarrow> error + real" where
  "penalise_row alpha betas saving_i =
     (let saving_order = np_argsort (map uminus saving_i)
      in case np_binop (-) (map (\<lambda>j. saving_i ! j) saving_order) betas of
           Inl e \<Rightarrow> Inl e
         | Inr d \<Rightarrow>
             (let penalised_saving = map (\<lambda>x. x - alpha) (np_cumsum d)
              in case np_argmax penalised_saving of
                   Inl e \<Rightarrow> Inl e
                 | Inr argmax \<Rightarrow> Inr (penalised_saving ! argmax)))"

text \<open>
  \<^verbatim>\<open>penalise_savings\<close>. The source has an \<^verbatim>\<open>if\<close> followed by an
  \<^verbatim>\<open>if\<close>/\<^verbatim>\<open>else\<close>: the value \<open>first_assignment\<close> of the first \<^verbatim>\<open>if\<close> is
  always overwritten by one of the two later branches. \<^verbatim>\<open>betas[0]\<close> on an empty array is an
  \<^verbatim>\<open>IndexError\<close>. In the middle branch \<open>alpha\<close> is subtracted from every entry of the
  matrix before the row sum.
\<close>

definition penalise_savings :: "real list list \<Rightarrow> real \<Rightarrow> real list \<Rightarrow> error + real list" where
  "penalise_savings savings alpha betas =
     (let first_assignment =
            (if list_all (\<lambda>b. b < 1 / 10 ^ 8) betas
             then Some (map (\<lambda>row. sum_list row - alpha) savings) else None)
      in case betas of
           [] \<Rightarrow> Inl IndexError
         | b0 # _ \<Rightarrow>
             if list_all (\<lambda>b. b = b0) betas
             then Inr (map (\<lambda>row. sum_list (map (\<lambda>s. max (s - b0) 0 - alpha) row)) savings)
             else map_raise (penalise_row alpha betas) savings)"


text \<open>
  The same with the penalty of size \<open>k\<close> read as the sum of the first \<open>k\<close> entries of
  \<open>betas\<close>, which are the marginal penalties of one more affected component.
\<close>

definition cumulative_penalised_row :: "real \<Rightarrow> real list \<Rightarrow> real list \<Rightarrow> real" where
  "cumulative_penalised_row alpha betas row =
     Max (set (map (\<lambda>k. sum_list (take k (rev (sort row))) - sum_list (take k betas))
                   [1..<Suc (length row)])) - alpha"

subsection \<open>The optimal-partitioning recurrence\<close>

text \<open>
  \<^verbatim>\<open>optimise_savings\<close>. \<^verbatim>\<open>opt_savings[starts]\<close> raises \<^verbatim>\<open>IndexError\<close> on a position
  outside the table; the sum is NumPy's broadcast addition; \<^verbatim>\<open>starts[0]\<close> is read only
  after \<^verbatim>\<open>np.argmax\<close> has accepted a non-empty array.
\<close>

definition optimise_savings ::
  "nat list \<Rightarrow> real list \<Rightarrow> real list list \<Rightarrow> real \<Rightarrow> real list \<Rightarrow> error + real \<times> nat" where
  "optimise_savings starts opt_savings next_savings alpha betas =
     (case penalise_savings next_savings alpha betas of
        Inl e \<Rightarrow> Inl e
      | Inr penalised_saving \<Rightarrow>
          if \<not> list_all (\<lambda>s. s < length opt_savings) starts then Inl IndexError
          else (case np_binop (+) (map (\<lambda>s. opt_savings ! s) starts) penalised_saving of
                  Inl e \<Rightarrow> Inl e
                | Inr candidate_savings \<Rightarrow>
                    (case np_argmax candidate_savings of
                       Inl e \<Rightarrow> Inl e
                     | Inr argmax \<Rightarrow> Inr (candidate_savings ! argmax, hd starts + argmax))))"

text \<open>The two arrays \<^verbatim>\<open>run_base_capa\<close> fills in its loop.\<close>

record capa_state =
  opt_savings :: "real list"
  opt_anomaly_starts :: "nat option list"

text \<open>
  The body of \<^verbatim>\<open>for t in ts\<close>. Positions are naturals, so
  \<^verbatim>\<open>max(0, t - max_segment_length + 1)\<close> is the truncated difference below, and
  \<^verbatim>\<open>np.arange\<close> of an empty range is the empty list.
\<close>

definition capa_step ::
  "(nat \<Rightarrow> nat \<Rightarrow> real list) \<Rightarrow> real \<Rightarrow> real list \<Rightarrow> real \<Rightarrow> real list \<Rightarrow> nat \<Rightarrow> nat
   \<Rightarrow> nat \<Rightarrow> capa_state \<Rightarrow> error + capa_state" where
  "capa_step saving collective_alpha collective_betas point_alpha point_betas
       min_segment_length max_segment_length t st =
     (let lower_start = (t + 1) - max_segment_length;
          upper_start = (t + 2) - min_segment_length;
          starts = [lower_start..<upper_start];
          ends = replicate (length starts) t;
          collective_savings = saving_func saving starts ends
      in case optimise_savings starts (opt_savings st) collective_savings
                collective_alpha collective_betas of
           Inl e \<Rightarrow> Inl e
         | Inr (opt_collective_saving, opt_start) \<Rightarrow>
             (let t_array = [t];
                  point_savings = saving_func saving t_array t_array
              in case optimise_savings t_array (opt_savings st) point_savings
                        point_alpha point_betas of
                   Inl e \<Rightarrow> Inl e
                 | Inr (opt_point_saving, _) \<Rightarrow>
                     (let savings = [opt_savings st ! t, opt_collective_saving, opt_point_saving];
                          argmax = argmax_list savings;
                          st1 = st\<lparr>opt_savings := (opt_savings st)[t + 1 := savings ! argmax]\<rparr>
                      in Inr (if argmax = 1
                              then st1\<lparr>opt_anomaly_starts :=
                                         (opt_anomaly_starts st1)[t := Some opt_start]\<rparr>
                              else if argmax = 2
                              then st1\<lparr>opt_anomaly_starts :=
                                         (opt_anomaly_starts st1)[t := Some t]\<rparr>
                              else st1))))"

text \<open>A \<^verbatim>\<open>for\<close> loop that threads a state and stops at the first exception.\<close>

fun fold_raise :: "('a \<Rightarrow> 's \<Rightarrow> error + 's) \<Rightarrow> 'a list \<Rightarrow> 's \<Rightarrow> error + 's" where
  "fold_raise f [] st = Inr st"
| "fold_raise f (x # xs) st =
     (case f x st of Inl e \<Rightarrow> Inl e | Inr st' \<Rightarrow> fold_raise f xs st')"

text \<open>
  The forward pass of \<^verbatim>\<open>run_base_capa\<close>: the two arrays after the loop over
  \<^verbatim>\<open>ts = np.arange(min_segment_length - 1, n)\<close>. Of the sequence \<open>X\<close> the function reads
  only \<open>n = X.shape[0]\<close>. The model is for \<open>min_segment_length \<ge> 1\<close>, where every
  position of the source is non-negative; the constructor of the detector admits only
  \<open>min_segment_length \<ge> 2\<close>.
\<close>

definition capa_forward ::
  "nat \<Rightarrow> (nat \<Rightarrow> nat \<Rightarrow> real list) \<Rightarrow> real \<Rightarrow> real list \<Rightarrow> real \<Rightarrow> real list \<Rightarrow> nat \<Rightarrow> nat
   \<Rightarrow> error + capa_state" where
  "capa_forward n saving collective_alpha collective_betas point_alpha point_betas
       min_segment_length max_segment_length =
     fold_raise
       (capa_step saving collective_alpha collective_betas point_alpha point_betas
          min_segment_length max_segment_length)
       [min_segment_length - 1..<n]
       \<lparr>opt_savings = replicate (n + 1) 0, opt_anomaly_starts = replicate n None\<rparr>"

subsection \<open>The anomaly reconstructor\<close>

text \<open>
  The \<^verbatim>\<open>while i >= 0\<close> loop of \<^verbatim>\<open>get_anomalies\<close>, with \<open>m = i + 1\<close> as the loop
  variable, so that the exit \<open>i = -1\<close> is \<open>m = 0\<close>. An unset entry makes
  \<^verbatim>\<open>size\<close> a \<open>nan\<close>, for which both comparisons are false. After a collective anomaly
  the source sets \<open>i\<close> to its start and then decrements: the next \<open>m\<close> is \<open>start_i\<close>.
  Both lists grow by \<^verbatim>\<open>append\<close>.
\<close>

function get_anomalies_loop ::
  "nat option list \<Rightarrow> nat \<Rightarrow> (nat \<times> nat) list \<Rightarrow> (nat \<times> nat) list
   \<Rightarrow> (nat \<times> nat) list \<times> (nat \<times> nat) list" where
  "get_anomalies_loop anomaly_starts m collective_anomalies point_anomalies =
     (if m = 0 then (collective_anomalies, point_anomalies)
      else (let i = m - 1
            in case anomaly_starts ! i of
                 None \<Rightarrow> get_anomalies_loop anomaly_starts i collective_anomalies point_anomalies
               | Some start_i \<Rightarrow>
                   if start_i < i
                   then get_anomalies_loop anomaly_starts start_i
                          (collective_anomalies @ [(start_i, i)]) point_anomalies
                   else if start_i = i
                   then get_anomalies_loop anomaly_starts i
                          collective_anomalies (point_anomalies @ [(i, i)])
                   else get_anomalies_loop anomaly_starts i
                          collective_anomalies point_anomalies))"
  by pat_completeness auto
termination
  by (relation "measure (\<lambda>(a, m, c, p). m)") auto

definition get_anomalies :: "nat option list \<Rightarrow> (nat \<times> nat) list \<times> (nat \<times> nat) list" where
  "get_anomalies anomaly_starts = get_anomalies_loop anomaly_starts (length anomaly_starts) [] []"

text \<open>\<^verbatim>\<open>run_base_capa\<close>: the forward pass, then the reconstruction; returns \<^verbatim>\<open>opt_savings[1:]\<close>.\<close>

definition run_base_capa ::
  "nat \<Rightarrow> (nat \<Rightarrow> nat \<Rightarrow> real list) \<Rightarrow> real \<Rightarrow> real list \<Rightarrow> real \<Rightarrow> real list \<Rightarrow> nat \<Rightarrow> nat
   \<Rightarrow> error + real list \<times> (nat \<times> nat) list \<times> (nat \<times> nat) list" where
  "run_base_capa n saving collective_alpha collective_betas point_alpha point_betas
       min_segment_length max_segment_length =
     (case capa_forward n saving collective_alpha collective_betas point_alpha point_betas
             min_segment_length max_segment_length of
        Inl e \<Rightarrow> Inl e
      | Inr st \<Rightarrow>
          (case get_anomalies (opt_anomaly_starts st) of
             (collective_anomalies, point_anomalies) \<Rightarrow>
               Inr (tl (opt_savings st), collective_anomalies, point_anomalies)))"

subsection \<open>The affected-component finder and the engine\<close>

definition affected_components :: "real \<Rightarrow> real list \<Rightarrow> real list \<Rightarrow> error + nat list" where
  "affected_components alpha betas saving =
     (let saving_order = np_argsort (map uminus saving)
      in case np_binop (-) (map (\<lambda>j. saving ! j) saving_order) betas of
           Inl e \<Rightarrow> Inl e
         | Inr d \<Rightarrow>
             (let penalised_saving = map (\<lambda>x. x - alpha) (np_cumsum d)
              in case np_argmax penalised_saving of
                   Inl e \<Rightarrow> Inl e
                 | Inr argmax \<Rightarrow> Inr (take (argmax + 1) saving_order)))"

definition find_affected_components ::
  "(nat \<Rightarrow> nat \<Rightarrow> real list) \<Rightarrow> (nat \<times> nat) list \<Rightarrow> real \<Rightarrow> real list
   \<Rightarrow> error + (nat \<times> nat \<times> nat list) list" where
  "find_affected_components saving anomalies alpha betas =
     map_raise
       (\<lambda>(start, end).
          case affected_components alpha betas (hd (saving_func saving [start] [end])) of
            Inl e \<Rightarrow> Inl e
          | Inr components \<Rightarrow> Inr (start, end, components))
       anomalies"

text \<open>
  \<^verbatim>\<open>run_mvcapa\<close>. \<open>saving\<close> stands for \<^verbatim>\<open>saving_func\<close> applied to
  \<^verbatim>\<open>params = saving_init_func(X)\<close>.
\<close>

definition run_mvcapa ::
  "nat \<Rightarrow> (nat \<Rightarrow> nat \<Rightarrow> real list) \<Rightarrow> real \<Rightarrow> real list \<Rightarrow> real \<Rightarrow> real list \<Rightarrow> nat \<Rightarrow> nat
   \<Rightarrow> error + real list \<times> (nat \<times> nat \<times> nat list) list \<times> (nat \<times> nat \<times> nat list) list" where
  "run_mvcapa n saving collective_alpha collective_betas point_alpha point_betas
       min_segment_length max_segment_length =
     (case run_base_capa n saving collective_alpha collective_betas point_alpha point_betas
             min_segment_length max_segment_length of
        Inl e \<Rightarrow> Inl e
      | Inr (opt_savings1, collective_anomalies, point_anomalies) \<Rightarrow>
          (case find_affected_components saving collective_anomalies
                  collective_alpha collective_betas of
             Inl e \<Rightarrow> Inl e
           | Inr collective_anomalies' \<Rightarrow>
               (case find_affected_components saving point_anomalies point_alpha point_betas of
                  Inl e \<Rightarrow> Inl e
                | Inr point_anomalies' \<Rightarrow>
                    Inr (opt_savings1, collective_anomalies', point_anomalies'))))"

subsection \<open>The detector\<close>

text \<open>
  The arguments of \<^verbatim>\<open>Mvcapa.__init__\<close>, which become the attributes of the detector.
  \<open>saving_arg\<close> is the argument \<^verbatim>\<open>saving\<close>; \<^verbatim>\<open>fmt\<close> and \<^verbatim>\<open>labels\<close> only concern the
  formatting of the output and are left out. The segment lengths are Python integers.
\<close>

record 'sv mvcapa =
  saving_arg :: 'sv
  collective_penalty :: penalty_arg
  collective_penalty_scale :: real
  point_penalty :: penalty_arg
  point_penalty_scale :: real
  min_segment_length :: int
  max_segment_length :: int
  ignore_point_anomalies :: bool

text \<open>
  \<^verbatim>\<open>Mvcapa.__init__\<close>. \<^verbatim>\<open>saving_factory\<close> belongs to \<^verbatim>\<open>skchange.costs\<close>, which is not
  among the sources at hand, and is a parameter: it resolves the argument to the saving
  functions or raises. The constructor returns the detector with the resolved functions.
\<close>

definition Mvcapa_init :: "('sv \<Rightarrow> error + 'f) \<Rightarrow> 'sv mvcapa \<Rightarrow> error + 'sv mvcapa \<times> 'f" where
  "Mvcapa_init saving_factory self =
     (case saving_factory (saving_arg self) of
        Inl e \<Rightarrow> Inl e
      | Inr saving_funcs \<Rightarrow>
          if min_segment_length self < 2 then Inl ValueError
          else if max_segment_length self < min_segment_length self then Inl ValueError
          else Inr (self, saving_funcs))"

text \<open>
  Of the data frame \<open>X\<close> the detector reads whether any value is missing and the shape
  \<open>(n, p)\<close>; the values themselves go to the saving functions.
\<close>

record 'x data_frame =
  isna_any :: bool
  shape0 :: nat
  shape1 :: nat
  frame_values :: 'x

definition check_capa_input :: "'x data_frame \<Rightarrow> int \<Rightarrow> error + 'x data_frame" where
  "check_capa_input X min_seg_length =
     (if isna_any X then Inl ValueError
      else if int (shape0 X) < min_seg_length then Inl ValueError
      else Inr X)"

text \<open>\<^verbatim>\<open>Mvcapa._get_penalty_components\<close>, with \<open>n_params = 1\<close> as in the source.\<close>

definition get_penalty_components ::
  "(real \<Rightarrow> nat \<Rightarrow> real) \<Rightarrow> (real \<Rightarrow> nat \<Rightarrow> real) \<Rightarrow> 'sv mvcapa \<Rightarrow> 'x data_frame
   \<Rightarrow> error + real \<times> real list \<times> real \<times> real list" where
  "get_penalty_components chi2_ppf chi2_pdf self X =
     (let n = shape0 X; p = shape1 X; n_params = 1
      in case capa_penalty_factory chi2_ppf chi2_pdf (collective_penalty self) of
           Inl e \<Rightarrow> Inl e
         | Inr collective_penalty_func \<Rightarrow>
         (case collective_penalty_func n p n_params (collective_penalty_scale self) of
           Inl e \<Rightarrow> Inl e
         | Inr (collective_alpha, collective_betas) \<Rightarrow>
         (case capa_penalty_factory chi2_ppf chi2_pdf (point_penalty self) of
           Inl e \<Rightarrow> Inl e
         | Inr point_penalty_func \<Rightarrow>
         (case point_penalty_func n p n_params (point_penalty_scale self) of
           Inl e \<Rightarrow> Inl e
         | Inr (point_alpha, point_betas) \<Rightarrow>
             Inr (collective_alpha, collective_betas, point_alpha, point_betas)))))"

text \<open>\<^verbatim>\<open>Mvcapa._fit\<close>: the input check, then the penalties, which are the fitted state.\<close>

definition Mvcapa_fit ::
  "(real \<Rightarrow> nat \<Rightarrow> real) \<Rightarrow> (real \<Rightarrow> nat \<Rightarrow> real) \<Rightarrow> 'sv mvcapa \<Rightarrow> 'x data_frame
   \<Rightarrow> error + real \<times> real list \<times> real \<times> real list" where
  "Mvcapa_fit chi2_ppf chi2_pdf self X =
     (case check_capa_input X (min_segment_length self) of
        Inl e \<Rightarrow> Inl e
      | Inr X' \<Rightarrow> get_penalty_components chi2_ppf chi2_pdf self X')"

text \<open>The names \<^verbatim>\<open>capa_penalty_factory\<close> accepts.\<close>

definition known_penalty :: "penalty_arg \<Rightarrow> bool" where
  "known_penalty penalty =
     (case penalty of
        PenaltyCallable f \<Rightarrow> True
      | PenaltyName name \<Rightarrow> name \<in> set [''dense'', ''sparse'', ''intermediate'', ''combined''])"

subsection \<open>The recurrence in the words of the specification\<close>

text \<open>
  The penalised saving of one interval: \<^verbatim>\<open>penalise_savings\<close> applied to the matrix
  with the single row of that interval (\<open>0\<close> where the source raises).
\<close>

definition penalised_saving :: "real \<Rightarrow> real list \<Rightarrow> real list \<Rightarrow> real" where
  "penalised_saving alpha betas row =
     (case penalise_savings [row] alpha betas of Inl e \<Rightarrow> 0 | Inr ps \<Rightarrow> hd ps)"

text \<open>
  Section 4.3, hypothesis 2: for every candidate start \<open>s\<close> in
  \<open>[max(0, t - maxSegLen + 1), t - minSegLen + 2)\<close> the value
  \<open>opt_saving[s] + penalizedSaving(s, t)\<close>, in the order of the starts.
\<close>

definition collective_candidates ::
  "(nat \<Rightarrow> nat \<Rightarrow> real list) \<Rightarrow> real \<Rightarrow> real list \<Rightarrow> nat \<Rightarrow> nat \<Rightarrow> real list \<Rightarrow> nat \<Rightarrow> real list" where
  "collective_candidates saving alpha betas minl maxl opt t =
     map (\<lambda>s. opt ! s + penalised_saving alpha betas (saving s t))
       [(t + 1) - maxl..<(t + 2) - minl]"

text \<open>The three hypothesis values at \<open>t\<close>: no anomaly, best collective anomaly, point anomaly.\<close>

definition hypotheses ::
  "(nat \<Rightarrow> nat \<Rightarrow> real list) \<Rightarrow> real \<Rightarrow> real list \<Rightarrow> real \<Rightarrow> real list \<Rightarrow> nat \<Rightarrow> nat
   \<Rightarrow> real list \<Rightarrow> nat \<Rightarrow> real \<times> real \<times> real" where
  "hypotheses saving c_alpha c_betas p_alpha p_betas minl maxl opt t =
     (opt ! t,
      Max (set (collective_candidates saving c_alpha c_betas minl maxl opt t)),
      opt ! t + penalised_saving p_alpha p_betas (saving t t))"

text \<open>The maximum of the three wins.\<close>

definition dp_value ::
  "(nat \<Rightarrow> nat \<Rightarrow> real list) \<Rightarrow> real \<Rightarrow> real list \<Rightarrow> real \<Rightarrow> real list \<Rightarrow> nat \<Rightarrow> nat
   \<Rightarrow> real list \<Rightarrow> nat \<Rightarrow> real" where
  "dp_value saving c_alpha c_betas p_alpha p_betas minl maxl opt t =
     (case hypotheses saving c_alpha c_betas p_alpha p_betas minl maxl opt t of
        (h1, h2, h3) \<Rightarrow> max h1 (max h2 h3))"

text \<open>
  Ties favour the earliest-listed hypothesis. The entry of the backtrack array: unset when
  hypothesis 1 wins, the first maximising start when hypothesis 2 wins, \<open>t\<close> when hypothesis
  3 wins.
\<close>

definition dp_origin ::
  "(nat \<Rightarrow> nat \<Rightarrow> real list) \<Rightarrow> real \<Rightarrow> real list \<Rightarrow> real \<Rightarrow> real list \<Rightarrow> nat \<Rightarrow> nat
   \<Rightarrow> real list \<Rightarrow> nat \<Rightarrow> nat option" where
  "dp_origin saving c_alpha c_betas p_alpha p_betas minl maxl opt t =
     (case hypotheses saving c_alpha c_betas p_alpha p_betas minl maxl opt t of
        (h1, h2, h3) \<Rightarrow>
          if h2 \<le> h1 \<and> h3 \<le> h1 then None
          else if h3 \<le> h2
          then Some ((t + 1) - maxl
                     + argmax_list (collective_candidates saving c_alpha c_betas minl maxl opt t))
          else Some t)"

subsection \<open>Reading the reconstruction\<close>

text \<open>
  The anomalies in the order in which the loop of \<^verbatim>\<open>get_anomalies\<close> meets them, collective
  and point anomalies together; \<open>m\<close> is again \<open>i + 1\<close>.
\<close>

function anomaly_walk :: "nat option list \<Rightarrow> nat \<Rightarrow> (nat \<times> nat) list" where
  "anomaly_walk anomaly_starts m =
     (if m = 0 then []
      else (let i = m - 1
            in case anomaly_starts ! i of
                 None \<Rightarrow> anomaly_walk anomaly_starts i
               | Some start_i \<Rightarrow>
                   if start_i < i then (start_i, i) # anomaly_walk anomaly_starts start_i
                   else if start_i = i then (i, i) # anomaly_walk anomaly_starts i
                   else anomaly_walk anomaly_starts i))"
  by pat_completeness auto
termination
  by (relation "measure (\<lambda>(a, m). m)") auto

text \<open>The positions inside a list of anomalies, each anomaly with both of its ends.\<close>

definition covered_positions :: "(nat \<times> nat) list \<Rightarrow> nat list" where
  "covered_positions anomalies = concat (map (\<lambda>(s, e). [s..<Suc e]) anomalies)"

text \<open>The positions the forward pass flagged: those whose entry of the backtrack array is set.\<close>

definition flagged_positions :: "nat option list \<Rightarrow> nat list" where
  "flagged_positions anomaly_starts =
     filter (\<lambda>j. anomaly_starts ! j \<noteq> None) [0..<length anomaly_starts]"

text \<open>
  The positions inside the intervals the forward pass recorded: for every set entry, from
  the stored start to the position of the entry.
\<close>

definition recorded_positions :: "nat option list \<Rightarrow> nat list" where
  "recorded_positions anomaly_starts =
     concat (map (\<lambda>j. case anomaly_starts ! j of None \<Rightarrow> [] | Some s \<Rightarrow> [s..<Suc j])
               [0..<length anomaly_starts])"

text \<open>Two anomalies share no position.\<close>

definition disjoint_anomalies :: "nat \<times> nat \<Rightarrow> nat \<times> nat \<Rightarrow> bool" where
  "disjoint_anomalies a b = (snd a < fst b \<or> snd b < fst a)"

subsection \<open>The objective of the recurrence\<close>

text \<open>
  The penalised saving of one anomaly: the collective penalty for \<open>s < e\<close>, the point
  penalty for a single position.
\<close>

definition anomaly_value ::
  "(nat \<Rightarrow> nat \<Rightarrow> real list) \<Rightarrow> real \<Rightarrow> real list \<Rightarrow> real \<Rightarrow> real list \<Rightarrow> nat \<times> nat \<Rightarrow> real" where
  "anomaly_value saving c_alpha c_betas p_alpha p_betas x =
     (if fst x < snd x then penalised_saving c_alpha c_betas (saving (fst x) (snd x))
      else penalised_saving p_alpha p_betas (saving (snd x) (snd x)))"

definition total_value ::
  "(nat \<Rightarrow> nat \<Rightarrow> real list) \<Rightarrow> real \<Rightarrow> real list \<Rightarrow> real \<Rightarrow> real list \<Rightarrow> (nat \<times> nat) list
   \<Rightarrow> real" where
  "total_value saving c_alpha c_betas p_alpha p_betas xs =
     sum_list (map (anomaly_value saving c_alpha c_betas p_alpha p_betas) xs)"

text \<open>
  The lists of anomalies the recurrence chooses among for the first \<open>m\<close> positions: listed
  latest first without overlap, each a point anomaly at a position from \<open>minl - 1\<close> on or a
  collective anomaly whose start lies in the candidate window of its end.
\<close>

definition admissible :: "nat \<Rightarrow> nat \<Rightarrow> nat \<Rightarrow> (nat \<times> nat) list \<Rightarrow> bool" where
  "admissible minl maxl m xs =
     (sorted_wrt (\<lambda>x y. snd y < fst x) xs \<and>
      list_all (\<lambda>x. snd x < m \<and> minl - 1 \<le> snd x \<and>
                     (fst x = snd x \<or> ((snd x + 1) - maxl \<le> fst x \<and> fst x < (snd x + 2) - minl)))
        xs)"

text \<open>The saving of an anomaly before any penalty when all betas are zero.\<close>

definition raw_value :: "(nat \<Rightarrow> nat \<Rightarrow> real list) \<Rightarrow> nat \<times> nat \<Rightarrow> real" where
  "raw_value saving x =
     sum_list (map (\<lambda>v. max v 0) (if fst x < snd x then saving (fst x) (snd x)
                                     else saving (snd x) (snd x)))"

text \<open>The number of anomalies in the output of the engine (\<open>0\<close> when it raises).\<close>

definition anomaly_count :: "error + real list \<times> 'a list \<times> 'b list \<Rightarrow> nat" where
  "anomaly_count result =
     (case result of
        Inl e \<Rightarrow> 0
      | Inr (opts, collective_anomalies, point_anomalies) \<Rightarrow>
          length collective_anomalies + length point_anomalies)"

subsection \<open>Sample inputs\<close>

text \<open>
  A saving function with one component for a sequence of four samples: the intervals
  \<open>(0, 1)\<close> and \<open>(2, 3)\<close> have saving \<open>10\<close>, every other interval has saving \<open>0\<close>.
\<close>

definition two_teeth :: "nat \<Rightarrow> nat \<Rightarrow> real list" where
  "two_teeth s e = (if (s, e) = (0, 1) \<or> (s, e) = (2, 3) then [10] else [0])"

text \<open>
  A saving function with one component for a sequence of three samples: the interval
  \<open>(0, 2)\<close> has saving \<open>17.1\<close>, the single positions \<open>1\<close> and \<open>2\<close> have saving \<open>8\<close>, every
  other interval has saving \<open>0\<close>.
\<close>

definition split_saving :: "nat \<Rightarrow> nat \<Rightarrow> real list" where
  "split_saving s e =
     (if (s, e) = (0, 2) then [171 / 10]
      else if (s, e) = (1, 1) \<or> (s, e) = (2, 2) then [8]
      else [0])"

text \<open>
  A saving function with one component for a sequence of five samples: the interval
  \<open>(1, 3)\<close> has saving \<open>10\<close>, the overlapping interval \<open>(2, 4)\<close> has saving \<open>20\<close>, every
  other interval has saving \<open>0\<close>.
\<close>

definition overlapping_teeth :: "nat \<Rightarrow> nat \<Rightarrow> real list" where
  "overlapping_teeth s e =
     (if (s, e) = (1, 3) then [10] else if (s, e) = (2, 4) then [20] else [0])"

text \<open>
  A saving function with one component for a sequence of four samples, with savings at
  the scale where \<^verbatim>\<open>float64\<close> has spacing \<open>2\<close>: the interval \<open>(0, 1)\<close> has saving
  \<open>2^53 + 4\<close>, the interval \<open>(2, 3)\<close> has saving \<open>2.5\<close>, the interval \<open>(0, 3)\<close> has saving
  \<open>2^53 + 6\<close>, every other interval has saving \<open>0\<close>.
\<close>

definition large_teeth :: "nat \<Rightarrow> nat \<Rightarrow> real list" where
  "large_teeth s e =
     (if (s, e) = (0, 1) then [2 ^ 53 + 4]
      else if (s, e) = (2, 3) then [5 / 2]
      else if (s, e) = (0, 3) then [2 ^ 53 + 6]
      else [0])"

section \<open>Properties\<close>

subsection \<open>Facts about the primitives\<close>

lemma map_raise_Inr:
  "(\<And>x. x \<in> set xs \<Longrightarrow> f x = Inr (g x)) \<Longrightarrow> map_raise f xs = Inr (map g xs)"
  by (induction xs) auto

lemma map_raise_length:
  "map_raise f xs = Inr ys \<Longrightarrow> length ys = length xs"
  by (induction xs arbitrary: ys) (auto split: sum.splits)

lemma map_raise_nth:
  "map_raise f xs = Inr ys \<Longrightarrow> i < length xs \<Longrightarrow> f (xs ! i) = Inr (ys ! i)"
proof (induction xs arbitrary: ys i)
  case Nil
  then show ?case by simp
next
  case (Cons x xs)
  then show ?case by (cases i) (auto split: sum.splits)
qed

lemma length_cumsum_from: "length (cumsum_from a xs) = length xs"
  by (induction xs arbitrary: a) auto

lemma cumsum_from_nth:
  "k < length xs \<Longrightarrow> cumsum_from a xs ! k = a + sum_list (take (Suc k) xs)"
proof (induction xs arbitrary: a k)
  case Nil
  then show ?case by simp
next
  case (Cons x xs)
  then show ?case by (cases k) (auto simp: algebra_simps)
qed

lemma np_cumsum_eq_map:
  "np_cumsum xs = map (\<lambda>k. sum_list (take k xs)) [1..<Suc (length xs)]"
  by (rule nth_equalityI)
     (auto simp: np_cumsum_def length_cumsum_from cumsum_from_nth nth_upt simp del: upt_Suc)

lemma argmax_list_less: "xs \<noteq> [] \<Longrightarrow> argmax_list xs < length xs"
proof -
  assume "xs \<noteq> []"
  let ?P = "\<lambda>x. x \<noteq> Max (set xs)"
  from \<open>xs \<noteq> []\<close> have "Max (set xs) \<in> set xs" by simp
  then have "dropWhile ?P xs \<noteq> []" by (auto simp: dropWhile_eq_Nil_conv)
  moreover have "length xs = length (takeWhile ?P xs) + length (dropWhile ?P xs)"
    by (metis length_append takeWhile_dropWhile_id)
  ultimately show ?thesis by (simp add: argmax_list_def)
qed

lemma argmax_list_Max: "xs \<noteq> [] \<Longrightarrow> xs ! argmax_list xs = Max (set xs)"
  using argmax_list_less[of xs] nth_length_takeWhile[of "\<lambda>x. x \<noteq> Max (set xs)" xs]
  by (simp add: argmax_list_def)

lemma argmax_list_first: "j < argmax_list xs \<Longrightarrow> xs ! j < Max (set xs)"
proof -
  assume j: "j < argmax_list xs"
  let ?P = "\<lambda>x. x \<noteq> Max (set xs)"
  from j have jl: "j < length (takeWhile ?P xs)" by (simp add: argmax_list_def)
  then have b: "takeWhile ?P xs ! j = xs ! j"
    by (simp add: takeWhile_nth)
  from jl have a: "takeWhile ?P xs ! j \<in> set (takeWhile ?P xs)" by (rule nth_mem)
  from a have "?P (takeWhile ?P xs ! j)" by (rule set_takeWhileD[THEN conjunct2])
  moreover from a have "takeWhile ?P xs ! j \<in> set xs" by (rule set_takeWhileD[THEN conjunct1])
  ultimately show ?thesis using b by (simp add: order_less_le)
qed

lemma rev_neg_sorted: "sorted (ys::real list) \<Longrightarrow> sorted (rev (map uminus ys))"
  by (induction ys) (auto simp: sorted_append)

lemma sorted_desc_gather:
  "map (\<lambda>j. row ! j) (np_argsort (map uminus row)) = rev (sort row)"
proof -
  let ?n = "length row"
  let ?o = "np_argsort (map uminus row)"
  have keys: "map (\<lambda>j. map uminus row ! j) ?o = sort (map uminus row)"
  proof (rule properties_for_sort[symmetric])
    have "mset (map (\<lambda>j. map uminus row ! j) ?o) = image_mset (\<lambda>j. map uminus row ! j) (mset [0..<?n])"
      by (simp add: np_argsort_def)
    also have "\<dots> = mset (map (\<lambda>j. map uminus row ! j) [0..<?n])" by simp
    also have "map (\<lambda>j. map uminus row ! j) [0..<?n] = map uminus row"
      by (rule nth_equalityI) auto
    finally show "mset (map (\<lambda>j. map uminus row ! j) ?o) = mset (map uminus row)" .
    show "sorted (map (\<lambda>j. map uminus row ! j) ?o)"
      unfolding np_argsort_def by (simp add: sorted_sort_key del: length_map)
  qed
  have inrange: "\<forall>j\<in>set ?o. j < ?n" by (simp add: np_argsort_def)
  have "map (\<lambda>j. row ! j) ?o = map uminus (map (\<lambda>j. map uminus row ! j) ?o)"
    using inrange by (auto simp: comp_def)
  also have "\<dots> = map uminus (sort (map uminus row))" by (simp only: keys)
  also have "\<dots> = rev (sort row)"
  proof -
    have "sort row = rev (map uminus (sort (map uminus row)))"
    proof (rule properties_for_sort)
      show "mset (rev (map uminus (sort (map uminus row)))) = mset row"
        by (simp add: multiset.map_comp comp_def)
      show "sorted (rev (map uminus (sort (map uminus row))))"
        by (rule rev_neg_sorted) simp
    qed
    then show ?thesis by simp
  qed
  finally show ?thesis .
qed

lemma sum_list_take_map2_diff:
  "length xs = length ys \<Longrightarrow>
   sum_list (take k (map2 (-) xs ys)) = sum_list (take k xs) - sum_list (take k (ys::real list))"
proof (induction xs ys arbitrary: k rule: list_induct2)
  case Nil
  then show ?case by simp
next
  case (Cons x xs y ys)
  then show ?case by (cases k) auto
qed

lemma Max_shift:
  "ys \<noteq> [] \<Longrightarrow> Max (set (map (\<lambda>x. x - a) ys)) = Max (set ys) - (a::real)"
proof -
  assume "ys \<noteq> []"
  have "mono (\<lambda>x::real. x - a)" by (simp add: mono_def)
  then have "(\<lambda>x. x - a) (Max (set ys)) = Max ((\<lambda>x. x - a) ` set ys)"
    using \<open>ys \<noteq> []\<close> by (intro mono_Max_commute) auto
  then show ?thesis by simp
qed

lemma penalise_row_general:
  assumes len: "length row = length betas" and ne: "betas \<noteq> []"
  shows "penalise_row alpha betas row = Inr (cumulative_penalised_row alpha betas row)"
proof -
  let ?s = "rev (sort row)"
  let ?d = "map2 (-) ?s betas"
  let ?c = "map (\<lambda>k. sum_list (take k ?s) - sum_list (take k betas)) [1..<Suc (length row)]"
  have ls: "length ?s = length betas" using len by simp
  have cum: "np_cumsum ?d = ?c"
    using ls len by (simp add: np_cumsum_eq_map sum_list_take_map2_diff del: upt_Suc)
  have cne: "?c \<noteq> []" using len ne by (simp del: upt_Suc)
  let ?pen = "map (\<lambda>x. x - alpha) ?c"
  have pne: "?pen \<noteq> []" using cne by simp
  have bin: "np_binop (-) ?s betas = Inr ?d"
    using ls by (simp add: np_binop_def)
  have am: "np_argmax ?pen = Inr (argmax_list ?pen)"
    using pne by (simp add: np_argmax_def del: upt_Suc)
  have "penalise_row alpha betas row = Inr (?pen ! argmax_list ?pen)"
    by (simp only: penalise_row_def Let_def sorted_desc_gather bin cum am sum.case)
  also have "?pen ! argmax_list ?pen = Max (set ?pen)" by (rule argmax_list_Max[OF pne])
  also have "\<dots> = Max (set ?c) - alpha" by (rule Max_shift[OF cne])
  finally show ?thesis by (simp add: cumulative_penalised_row_def del: upt_Suc)
qed

lemma not_all_equal_Cons:
  "betas \<noteq> [] \<Longrightarrow> \<not> list_all (\<lambda>b. b = hd betas) betas \<Longrightarrow>
   penalise_savings savings alpha betas = map_raise (penalise_row alpha betas) savings"
  by (cases betas) (auto simp: penalise_savings_def)


subsection \<open>The penalised saving of a row\<close>




text \<open>
  Claim C3 at the input \<open>savings = [[1, 2]]\<close>, \<open>alpha = 1\<close>, \<open>betas = [0, 0]\<close>: all entries
  of \<open>betas\<close> are below \<open>1e-8\<close>, the row sum minus \<open>alpha\<close> is \<open>2\<close>, and
  \<^verbatim>\<open>penalise_savings\<close> returns \<open>1\<close>: the value of the first \<^verbatim>\<open>if\<close> is overwritten by the
  branch for equal \<open>betas\<close>, which subtracts \<open>alpha\<close> once per component.
\<close>

theorem penalise_savings_zero_betas_subtracts_alpha_per_component:
  "list_all (\<lambda>b. b < 1 / 10 ^ 8) [0, 0::real]
   \<and> penalise_savings [[1, 2]] 1 [0, 0] = Inr [1]
   \<and> map (\<lambda>row. sum_list row - 1) [[1, 2::real]] = [2]"
  by (simp add: penalise_savings_def)

subsection \<open>One step of the recurrence\<close>

lemma penalise_savings_single:
  "penalise_savings savings alpha betas = Inr ps \<Longrightarrow> row \<in> set savings \<Longrightarrow>
   \<exists>v. penalise_savings [row] alpha betas = Inr [v]"
proof (cases betas)
  case Nil
  assume "penalise_savings savings alpha betas = Inr ps"
  with Nil show ?thesis by (simp add: penalise_savings_def)
next
  case (Cons b0 bs)
  assume a: "penalise_savings savings alpha betas = Inr ps" and r: "row \<in> set savings"
  show ?thesis
  proof (cases "list_all (\<lambda>b. b = b0) betas")
    case True
    with Cons show ?thesis by (simp add: penalise_savings_def)
  next
    case False
    with Cons a have m: "map_raise (penalise_row alpha betas) savings = Inr ps"
      by (simp add: penalise_savings_def)
    from r obtain i where i: "i < length savings" "savings ! i = row"
      by (auto simp: in_set_conv_nth)
    from map_raise_nth[OF m i(1)] i(2) have "penalise_row alpha betas row = Inr (ps ! i)" by simp
    with Cons False show ?thesis by (simp add: penalise_savings_def)
  qed
qed

lemma penalise_savings_map:
  assumes "penalise_savings savings alpha betas = Inr ps"
  shows "ps = map (penalised_saving alpha betas) savings"
proof (cases betas)
  case Nil
  with assms show ?thesis by (simp add: penalise_savings_def)
next
  case (Cons b0 bs)
  show ?thesis
  proof (cases "list_all (\<lambda>b. b = b0) betas")
    case True
    with Cons assms show ?thesis
      by (auto simp: penalise_savings_def penalised_saving_def)
  next
    case False
    with Cons assms have m: "map_raise (penalise_row alpha betas) savings = Inr ps"
      by (simp add: penalise_savings_def)
    have l: "length ps = length savings" by (rule map_raise_length[OF m])
    show ?thesis
    proof (rule nth_equalityI)
      show "length ps = length (map (penalised_saving alpha betas) savings)" using l by simp
    next
      fix i assume "i < length ps"
      then have i: "i < length savings" using l by simp
      from map_raise_nth[OF m i] have "penalise_row alpha betas (savings ! i) = Inr (ps ! i)" .
      then have "penalised_saving alpha betas (savings ! i) = ps ! i"
        using Cons False by (simp add: penalised_saving_def penalise_savings_def)
      then show "ps ! i = map (penalised_saving alpha betas) savings ! i" using i by simp
    qed
  qed
qed

lemma argmax3:
  "argmax_list [a, b, c] = (if b \<le> a \<and> c \<le> a then 0 else if c \<le> b then 1 else 2)"
  by (auto simp: argmax_list_def max_def)

lemma argmax3_value:
  "[a, b, c] ! argmax_list [a, b, c] = max a (max b c)"
  using argmax_list_Max[of "[a, b, c]"] by simp

lemma map2_same: "map2 f (map g xs) (map h xs) = map (\<lambda>x. f (g x) (h x)) xs"
  by (induction xs) auto

lemma optimise_savings_result:
  assumes "optimise_savings starts opt (map (\<lambda>s. saving s t) starts) alpha betas = Inr (v, s0)"
  shows "starts \<noteq> [] \<and>
         v = Max (set (map (\<lambda>s. opt ! s + penalised_saving alpha betas (saving s t)) starts)) \<and>
         s0 = hd starts + argmax_list (map (\<lambda>s. opt ! s + penalised_saving alpha betas (saving s t)) starts)"
proof -
  let ?M = "map (\<lambda>s. saving s t) starts"
  let ?c = "map (\<lambda>s. opt ! s + penalised_saving alpha betas (saving s t)) starts"
  from assms obtain ps where ps: "penalise_savings ?M alpha betas = Inr ps"
    by (auto simp: optimise_savings_def split: sum.splits)
  have pm: "ps = map (penalised_saving alpha betas) ?M" by (rule penalise_savings_map[OF ps])
  have bin: "np_binop (+) (map (\<lambda>s. opt ! s) starts) ps = Inr ?c"
    unfolding pm by (simp add: np_binop_def comp_def map2_same)
  from assms ps bin have ne: "?c \<noteq> []"
    by (auto simp: optimise_savings_def np_argmax_def split: sum.splits if_splits)
  from assms ps bin ne have "v = ?c ! argmax_list ?c" and "s0 = hd starts + argmax_list ?c"
    by (auto simp: optimise_savings_def np_argmax_def split: sum.splits if_splits)
  then show ?thesis using ne argmax_list_Max[OF ne] by simp
qed

lemma map2_replicate_right:
  "map2 f xs (replicate (length xs) t) = map (\<lambda>s. f s t) xs"
  by (induction xs) auto

lemma capa_step_result:
  assumes step: "capa_step saving ca cb pa pb minl maxl t st = Inr st'"
  shows "collective_candidates saving ca cb minl maxl (opt_savings st) t \<noteq> []"
    and "opt_savings st' =
           (opt_savings st)[t + 1 := dp_value saving ca cb pa pb minl maxl (opt_savings st) t]"
    and "opt_anomaly_starts st' =
           (case dp_origin saving ca cb pa pb minl maxl (opt_savings st) t of
              None \<Rightarrow> opt_anomaly_starts st
            | Some s \<Rightarrow> (opt_anomaly_starts st)[t := Some s])"
proof -
  let ?starts = "[(t + 1) - maxl..<(t + 2) - minl]"
  let ?opt = "opt_savings st"
  let ?cands = "collective_candidates saving ca cb minl maxl ?opt t"
  have rows: "saving_func saving ?starts (replicate (length ?starts) t)
              = map (\<lambda>s. saving s t) ?starts"
    unfolding saving_func_def by (rule map2_replicate_right)
  have prow: "saving_func saving [t] [t] = map (\<lambda>s. saving s t) [t]"
    by (simp add: saving_func_def)
  from step obtain v2 s2 where
    c: "optimise_savings ?starts ?opt (map (\<lambda>s. saving s t) ?starts) ca cb = Inr (v2, s2)"
    unfolding capa_step_def Let_def rows by (auto split: sum.splits)
  from step c obtain v3 s3 where
    p: "optimise_savings [t] ?opt (map (\<lambda>s. saving s t) [t]) pa pb = Inr (v3, s3)"
    unfolding capa_step_def Let_def rows prow by (auto split: sum.splits)
  from optimise_savings_result[of ?starts ?opt saving t ca cb v2 s2, OF c]
  have ne: "?starts \<noteq> []" and v2: "v2 = Max (set ?cands)"
    and s2: "s2 = hd ?starts + argmax_list ?cands"
    by (simp_all add: collective_candidates_def)
  from optimise_savings_result[of "[t]" ?opt saving t pa pb v3 s3, OF p]
  have v3: "v3 = ?opt ! t + penalised_saving pa pb (saving t t)" by simp
  from ne have hd: "hd ?starts = (t + 1) - maxl" by (simp add: hd_upt)
  show "?cands \<noteq> []" using ne by (simp add: collective_candidates_def)
  have hyp: "hypotheses saving ca cb pa pb minl maxl ?opt t = (?opt ! t, v2, v3)"
    by (simp add: hypotheses_def v2 v3)
  have st': "st' =
      (let savings = [?opt ! t, v2, v3];
           argmax = argmax_list savings;
           st1 = st\<lparr>opt_savings := ?opt[t + 1 := savings ! argmax]\<rparr>
       in if argmax = 1
          then st1\<lparr>opt_anomaly_starts := (opt_anomaly_starts st1)[t := Some s2]\<rparr>
          else if argmax = 2
          then st1\<lparr>opt_anomaly_starts := (opt_anomaly_starts st1)[t := Some t]\<rparr>
          else st1)"
    using step unfolding capa_step_def Let_def rows prow c p by simp
  show "opt_savings st' = ?opt[t + 1 := dp_value saving ca cb pa pb minl maxl ?opt t]"
    unfolding st' Let_def dp_value_def hyp by (auto simp: argmax3 max_def)
  show "opt_anomaly_starts st' =
           (case dp_origin saving ca cb pa pb minl maxl ?opt t of
              None \<Rightarrow> opt_anomaly_starts st
            | Some s \<Rightarrow> (opt_anomaly_starts st)[t := Some s])"
    using hd unfolding st' Let_def dp_origin_def hyp by (simp add: argmax3 s2)
qed

lemma fold_raise_snoc:
  "fold_raise f (xs @ [x]) st =
     (case fold_raise f xs st of Inl e \<Rightarrow> Inl e | Inr st' \<Rightarrow> f x st')"
  by (induction xs arbitrary: st) (auto split: sum.splits)

lemma collective_candidates_cong:
  assumes "\<And>j. j \<le> t \<Longrightarrow> opt ! j = opt' ! j" and "1 \<le> minl"
  shows "collective_candidates saving ca cb minl maxl opt t
         = collective_candidates saving ca cb minl maxl opt' t"
  unfolding collective_candidates_def using assms by (intro map_cong) auto

lemma hypotheses_cong:
  assumes "\<And>j. j \<le> t \<Longrightarrow> opt ! j = opt' ! j" and "1 \<le> minl"
  shows "hypotheses saving ca cb pa pb minl maxl opt t
         = hypotheses saving ca cb pa pb minl maxl opt' t"
  unfolding hypotheses_def
  using collective_candidates_cong[of t opt opt' minl saving ca cb maxl] assms by simp

lemma dp_value_cong:
  assumes "\<And>j. j \<le> t \<Longrightarrow> opt ! j = opt' ! j" and "1 \<le> minl"
  shows "dp_value saving ca cb pa pb minl maxl opt t
         = dp_value saving ca cb pa pb minl maxl opt' t"
  unfolding dp_value_def using hypotheses_cong[of t opt opt' minl] assms by simp

lemma dp_origin_cong:
  assumes "\<And>j. j \<le> t \<Longrightarrow> opt ! j = opt' ! j" and "1 \<le> minl"
  shows "dp_origin saving ca cb pa pb minl maxl opt t
         = dp_origin saving ca cb pa pb minl maxl opt' t"
proof -
  have h: "hypotheses saving ca cb pa pb minl maxl opt t
           = hypotheses saving ca cb pa pb minl maxl opt' t"
    using assms by (rule hypotheses_cong)
  have c: "collective_candidates saving ca cb minl maxl opt t
           = collective_candidates saving ca cb minl maxl opt' t"
    using assms by (rule collective_candidates_cong)
  show ?thesis by (simp only: dp_origin_def h c)
qed

subsection \<open>The forward pass\<close>

lemma capa_prefix_invariant:
  assumes minl: "1 \<le> minl"
  shows "fold_raise (capa_step saving ca cb pa pb minl maxl) [minl - 1..<m]
           \<lparr>opt_savings = replicate (n + 1) 0, opt_anomaly_starts = replicate n None\<rparr> = Inr st
         \<Longrightarrow> minl - 1 \<le> m \<Longrightarrow> m \<le> n \<Longrightarrow>
         length (opt_savings st) = n + 1 \<and> length (opt_anomaly_starts st) = n \<and>
         (\<forall>j. j \<le> n \<and> (j \<le> minl - 1 \<or> m < j) \<longrightarrow> opt_savings st ! j = 0) \<and>
         (\<forall>j. j < n \<and> (j < minl - 1 \<or> m \<le> j) \<longrightarrow> opt_anomaly_starts st ! j = None) \<and>
         (\<forall>t. minl - 1 \<le> t \<and> t < m \<longrightarrow>
              opt_savings st ! (t + 1) = dp_value saving ca cb pa pb minl maxl (opt_savings st) t \<and>
              opt_anomaly_starts st ! t = dp_origin saving ca cb pa pb minl maxl (opt_savings st) t)"
proof (induction m arbitrary: st)
  case 0
  then show ?case by (auto simp: nth_Cons split: nat.splits)
next
  case (Suc m)
  let ?step = "capa_step saving ca cb pa pb minl maxl"
  let ?st0 = "\<lparr>opt_savings = replicate (n + 1) 0, opt_anomaly_starts = replicate n None\<rparr>"
  show ?case
  proof (cases "minl - 1 = Suc m")
    case True
    with Suc.prems have "st = ?st0" by simp
    with True show ?thesis by (auto simp: nth_Cons split: nat.splits)
  next
    case False
    with Suc.prems have lm: "minl - 1 \<le> m" and mn: "m < n" by auto
    then have "[minl - 1..<Suc m] = [minl - 1..<m] @ [m]" by simp
    with Suc.prems(1) obtain st1 where
      f1: "fold_raise ?step [minl - 1..<m] ?st0 = Inr st1" and s1: "?step m st1 = Inr st"
      by (auto simp: fold_raise_snoc split: sum.splits)
    from Suc.IH[OF f1 lm] mn have
      len1: "length (opt_savings st1) = n + 1" "length (opt_anomaly_starts st1) = n" and
      z1: "\<And>j. j \<le> n \<Longrightarrow> j \<le> minl - 1 \<or> m < j \<Longrightarrow> opt_savings st1 ! j = 0" and
      n1: "\<And>j. j < n \<Longrightarrow> j < minl - 1 \<or> m \<le> j \<Longrightarrow> opt_anomaly_starts st1 ! j = None" and
      r1: "\<And>t. minl - 1 \<le> t \<Longrightarrow> t < m \<Longrightarrow>
              opt_savings st1 ! (t + 1) = dp_value saving ca cb pa pb minl maxl (opt_savings st1) t \<and>
              opt_anomaly_starts st1 ! t = dp_origin saving ca cb pa pb minl maxl (opt_savings st1) t"
      by auto
    let ?v = "dp_value saving ca cb pa pb minl maxl (opt_savings st1) m"
    let ?o = "dp_origin saving ca cb pa pb minl maxl (opt_savings st1) m"
    have opt: "opt_savings st = (opt_savings st1)[m + 1 := ?v]"
      by (rule capa_step_result(2)[OF s1])
    have org: "opt_anomaly_starts st =
           (case ?o of None \<Rightarrow> opt_anomaly_starts st1
            | Some s \<Rightarrow> (opt_anomaly_starts st1)[m := Some s])"
      by (rule capa_step_result(3)[OF s1])
    have same: "\<And>t j. t \<le> m \<Longrightarrow> j \<le> t \<Longrightarrow> opt_savings st ! j = opt_savings st1 ! j"
      by (simp add: opt)
    have vcong: "\<And>t. t \<le> m \<Longrightarrow> dp_value saving ca cb pa pb minl maxl (opt_savings st) t
                 = dp_value saving ca cb pa pb minl maxl (opt_savings st1) t"
      by (rule dp_value_cong[OF same minl])
    have ocong: "\<And>t. t \<le> m \<Longrightarrow> dp_origin saving ca cb pa pb minl maxl (opt_savings st) t
                 = dp_origin saving ca cb pa pb minl maxl (opt_savings st1) t"
      by (rule dp_origin_cong[OF same minl])
    have org_other: "\<And>j. j \<noteq> m \<Longrightarrow> opt_anomaly_starts st ! j = opt_anomaly_starts st1 ! j"
      by (simp add: org split: option.splits)
    have org_m: "opt_anomaly_starts st ! m = ?o"
      using mn len1 n1[of m] by (simp add: org split: option.splits)
    have A: "length (opt_savings st) = n + 1" using len1 by (simp add: opt)
    have B: "length (opt_anomaly_starts st) = n" using len1 by (simp add: org split: option.splits)
    have C: "\<forall>j. j \<le> n \<and> (j \<le> minl - 1 \<or> Suc m < j) \<longrightarrow> opt_savings st ! j = 0"
      using z1 lm by (auto simp: opt nth_list_update)
    have D: "\<forall>j. j < n \<and> (j < minl - 1 \<or> Suc m \<le> j) \<longrightarrow> opt_anomaly_starts st ! j = None"
      using n1 lm by (auto simp: org_other)
    have E: "\<forall>t. minl - 1 \<le> t \<and> t < Suc m \<longrightarrow>
              opt_savings st ! (t + 1) = dp_value saving ca cb pa pb minl maxl (opt_savings st) t \<and>
              opt_anomaly_starts st ! t = dp_origin saving ca cb pa pb minl maxl (opt_savings st) t"
    proof (intro allI impI)
      fix t assume t: "minl - 1 \<le> t \<and> t < Suc m"
      show "opt_savings st ! (t + 1) = dp_value saving ca cb pa pb minl maxl (opt_savings st) t \<and>
            opt_anomaly_starts st ! t = dp_origin saving ca cb pa pb minl maxl (opt_savings st) t"
      proof (cases "t = m")
        case True
        have "opt_savings st ! (m + 1) = ?v" using len1 mn by (simp add: opt)
        then show ?thesis using True org_m vcong[of m] ocong[of m] by simp
      next
        case False
        with t have tm: "t < m" by simp
        then have "opt_savings st ! (t + 1) = opt_savings st1 ! (t + 1)" by (simp add: opt)
        moreover have "opt_anomaly_starts st ! t = opt_anomaly_starts st1 ! t"
          using False by (rule org_other)
        ultimately show ?thesis using r1[of t] t tm vcong[of t] ocong[of t] by simp
      qed
    qed
    from A B C D E show ?thesis by blast
  qed
qed

subsection \<open>The reconstruction\<close>

declare get_anomalies_loop.simps [simp del]
declare anomaly_walk.simps [simp del]

lemma anomaly_walk_0: "anomaly_walk a 0 = []"
  by (subst anomaly_walk.simps) simp

lemma anomaly_walk_Suc:
  "anomaly_walk a (Suc i) =
     (case a ! i of
        None \<Rightarrow> anomaly_walk a i
      | Some s \<Rightarrow>
          if s < i then (s, i) # anomaly_walk a s
          else if s = i then (i, i) # anomaly_walk a i
          else anomaly_walk a i)"
  by (subst anomaly_walk.simps) (simp add: Let_def)

lemma get_anomalies_loop_0: "get_anomalies_loop a 0 c p = (c, p)"
  by (subst get_anomalies_loop.simps) simp

lemma get_anomalies_loop_Suc:
  "get_anomalies_loop a (Suc i) c p =
     (case a ! i of
        None \<Rightarrow> get_anomalies_loop a i c p
      | Some s \<Rightarrow>
          if s < i then get_anomalies_loop a s (c @ [(s, i)]) p
          else if s = i then get_anomalies_loop a i c (p @ [(i, i)])
          else get_anomalies_loop a i c p)"
  by (subst get_anomalies_loop.simps) (simp add: Let_def)

lemma get_anomalies_loop_walk:
  "get_anomalies_loop a m c p =
     (c @ filter (\<lambda>(s, e). s < e) (anomaly_walk a m),
      p @ filter (\<lambda>(s, e). s = e) (anomaly_walk a m))"
proof (induction m arbitrary: c p rule: less_induct)
  case (less m)
  show ?case
  proof (cases m)
    case 0
    then show ?thesis by (simp add: anomaly_walk_0 get_anomalies_loop_0)
  next
    case (Suc i)
    then have i: "i < m" by simp
    show ?thesis
    proof (cases "a ! i")
      case None
      with Suc less.IH[OF i] show ?thesis
        by (simp add: anomaly_walk_Suc get_anomalies_loop_Suc)
    next
      case (Some s)
      show ?thesis
      proof (cases "s < i")
        case True
        then have "s < m" using i by simp
        with Suc Some True less.IH[of s] show ?thesis
          by (simp add: anomaly_walk_Suc get_anomalies_loop_Suc)
      next
        case False
        with Suc Some less.IH[OF i] show ?thesis
          by (simp add: anomaly_walk_Suc get_anomalies_loop_Suc)
      qed
    qed
  qed
qed

lemma get_anomalies_walk:
  "get_anomalies a =
     (filter (\<lambda>(s, e). s < e) (anomaly_walk a (length a)),
      filter (\<lambda>(s, e). s = e) (anomaly_walk a (length a)))"
  by (simp add: get_anomalies_def get_anomalies_loop_walk)

lemma anomaly_walk_recorded:
  "(s, e) \<in> set (anomaly_walk a m) \<Longrightarrow> e < m \<and> s \<le> e \<and> a ! e = Some s"
proof (induction m rule: less_induct)
  case (less m)
  show ?case
  proof (cases m)
    case 0
    with less.prems show ?thesis by (simp add: anomaly_walk_0)
  next
    case (Suc i)
    then have i: "i < m" by simp
    show ?thesis
    proof (cases "a ! i")
      case None
      with Suc less.prems have "(s, e) \<in> set (anomaly_walk a i)" by (simp add: anomaly_walk_Suc)
      from less.IH[OF i this] i show ?thesis by simp
    next
      case (Some s0)
      show ?thesis
      proof (cases "s0 < i")
        case True
        with Suc Some less.prems
        have "(s, e) = (s0, i) \<or> (s, e) \<in> set (anomaly_walk a s0)"
          by (simp add: anomaly_walk_Suc)
        then show ?thesis
        proof
          assume "(s, e) = (s0, i)"
          with True Some i show ?thesis by simp
        next
          assume w: "(s, e) \<in> set (anomaly_walk a s0)"
          from True i have "s0 < m" by simp
          from less.IH[OF this w] True i show ?thesis by simp
        qed
      next
        case False
        with Suc Some less.prems
        have "(s, e) = (i, i) \<and> s0 = i \<or> (s, e) \<in> set (anomaly_walk a i)"
          by (auto simp: anomaly_walk_Suc split: if_splits)
        then show ?thesis
        proof
          assume "(s, e) = (i, i) \<and> s0 = i"
          with Some i show ?thesis by simp
        next
          assume w: "(s, e) \<in> set (anomaly_walk a i)"
          from less.IH[OF i w] i show ?thesis by simp
        qed
      qed
    qed
  qed
qed

lemma anomaly_walk_descending:
  "sorted_wrt (\<lambda>x y. snd y < fst x) (anomaly_walk a m)"
proof (induction m rule: less_induct)
  case (less m)
  show ?case
  proof (cases m)
    case 0
    then show ?thesis by (simp add: anomaly_walk_0)
  next
    case (Suc i)
    then have i: "i < m" by simp
    show ?thesis
    proof (cases "a ! i")
      case None
      with Suc less.IH[OF i] show ?thesis by (simp add: anomaly_walk_Suc)
    next
      case (Some s0)
      show ?thesis
      proof (cases "s0 < i")
        case True
        then have sm: "s0 < m" using i by simp
        have "\<forall>y\<in>set (anomaly_walk a s0). snd y < s0"
          using anomaly_walk_recorded[of _ _ a s0] by auto
        with Suc Some True less.IH[OF sm] show ?thesis by (simp add: anomaly_walk_Suc)
      next
        case False
        have "\<forall>y\<in>set (anomaly_walk a i). snd y < i"
          using anomaly_walk_recorded[of _ _ a i] by auto
        with Suc Some False less.IH[OF i] show ?thesis by (simp add: anomaly_walk_Suc)
      qed
    qed
  qed
qed

lemma anomaly_walk_covers:
  "j < m \<Longrightarrow> a ! j = Some s \<Longrightarrow> s \<le> j \<Longrightarrow>
   \<exists>x\<in>set (anomaly_walk a m). fst x \<le> j \<and> j \<le> snd x"
proof (induction m rule: less_induct)
  case (less m)
  show ?case
  proof (cases m)
    case 0
    with less.prems show ?thesis by simp
  next
    case (Suc i)
    then have i: "i < m" by simp
    show ?thesis
    proof (cases "j = i")
      case True
      with less.prems Suc show ?thesis by (auto simp: anomaly_walk_Suc)
    next
      case False
      with less.prems Suc have ji: "j < i" by simp
      show ?thesis
      proof (cases "a ! i")
        case None
        with Suc less.IH[OF i ji less.prems(2,3)] show ?thesis by (simp add: anomaly_walk_Suc)
      next
        case (Some s0)
        show ?thesis
        proof (cases "s0 < i")
          case True
          show ?thesis
          proof (cases "j < s0")
            case True
            from \<open>s0 < i\<close> i have sm: "s0 < m" by simp
            from less.IH[OF sm True less.prems(2,3)] Suc Some \<open>s0 < i\<close> show ?thesis
              by (simp add: anomaly_walk_Suc)
          next
            case False
            with Suc Some \<open>s0 < i\<close> ji show ?thesis by (simp add: anomaly_walk_Suc)
          qed
        next
          case False
          with Suc Some less.IH[OF i ji less.prems(2,3)] show ?thesis
            by (auto simp: anomaly_walk_Suc)
        qed
      qed
    qed
  qed
qed

lemma capa_forward_facts:
  assumes minl: "1 \<le> minl"
    and fw: "capa_forward n saving ca cb pa pb minl maxl = Inr st"
  shows "length (opt_savings st) = n + 1"
    and "length (opt_anomaly_starts st) = n"
    and "\<And>j. j \<le> n \<Longrightarrow> j \<le> minl - 1 \<Longrightarrow> opt_savings st ! j = 0"
    and "\<And>j. j < n \<Longrightarrow> j < minl - 1 \<Longrightarrow> opt_anomaly_starts st ! j = None"
    and "\<And>t. minl - 1 \<le> t \<Longrightarrow> t < n \<Longrightarrow>
           opt_savings st ! (t + 1) = dp_value saving ca cb pa pb minl maxl (opt_savings st) t \<and>
           opt_anomaly_starts st ! t = dp_origin saving ca cb pa pb minl maxl (opt_savings st) t"
proof -
  let ?st0 = "\<lparr>opt_savings = replicate (n + 1) (0::real), opt_anomaly_starts = replicate n None\<rparr>"
  have all: "length (opt_savings st) = n + 1 \<and> length (opt_anomaly_starts st) = n \<and>
         (\<forall>j. j \<le> n \<and> j \<le> minl - 1 \<longrightarrow> opt_savings st ! j = 0) \<and>
         (\<forall>j. j < n \<and> j < minl - 1 \<longrightarrow> opt_anomaly_starts st ! j = None) \<and>
         (\<forall>t. minl - 1 \<le> t \<and> t < n \<longrightarrow>
              opt_savings st ! (t + 1) = dp_value saving ca cb pa pb minl maxl (opt_savings st) t \<and>
              opt_anomaly_starts st ! t = dp_origin saving ca cb pa pb minl maxl (opt_savings st) t)"
  proof (cases "minl - 1 \<le> n")
    case True
    from fw have "fold_raise (capa_step saving ca cb pa pb minl maxl) [minl - 1..<n] ?st0 = Inr st"
      by (simp add: capa_forward_def)
    from capa_prefix_invariant[OF minl this True order_refl] show ?thesis by blast
  next
    case False
    with fw have "st = ?st0" by (simp add: capa_forward_def)
    with False show ?thesis by (auto simp: nth_Cons split: nat.splits)
  qed
  from all show "length (opt_savings st) = n + 1" by blast
  from all show "length (opt_anomaly_starts st) = n" by blast
  from all show "\<And>j. j \<le> n \<Longrightarrow> j \<le> minl - 1 \<Longrightarrow> opt_savings st ! j = 0" by blast
  from all show "\<And>j. j < n \<Longrightarrow> j < minl - 1 \<Longrightarrow> opt_anomaly_starts st ! j = None" by blast
  from all show "\<And>t. minl - 1 \<le> t \<Longrightarrow> t < n \<Longrightarrow>
           opt_savings st ! (t + 1) = dp_value saving ca cb pa pb minl maxl (opt_savings st) t \<and>
           opt_anomaly_starts st ! t = dp_origin saving ca cb pa pb minl maxl (opt_savings st) t"
    by blast
qed

lemma window_nonempty:
  "1 \<le> minl \<Longrightarrow> minl \<le> maxl \<Longrightarrow> minl - 1 \<le> t \<Longrightarrow>
   collective_candidates saving ca cb minl maxl opt t \<noteq> []"
  by (auto simp: collective_candidates_def)

lemma dp_value_ge: "opt ! t \<le> dp_value saving ca cb pa pb minl maxl opt t"
  by (simp add: dp_value_def hypotheses_def)

lemma dp_origin_range:
  assumes "1 \<le> minl" "minl \<le> maxl" "minl - 1 \<le> t"
    and o: "dp_origin saving ca cb pa pb minl maxl opt t = Some s"
  shows "s = t \<or> ((t + 1) - maxl \<le> s \<and> s < (t + 2) - minl)"
proof -
  let ?c = "collective_candidates saving ca cb minl maxl opt t"
  have "?c \<noteq> []" using assms(1-3) by (rule window_nonempty)
  then have "argmax_list ?c < length ?c" by (rule argmax_list_less)
  moreover have "length ?c = ((t + 2) - minl) - ((t + 1) - maxl)"
    by (simp add: collective_candidates_def)
  ultimately have "(t + 1) - maxl + argmax_list ?c < (t + 2) - minl" by linarith
  with o show ?thesis
    by (auto simp: dp_origin_def split: prod.splits if_splits)
qed

lemma capa_forward_origin:
  assumes "1 \<le> minl" "minl \<le> maxl"
    and fw: "capa_forward n saving ca cb pa pb minl maxl = Inr st"
    and j: "j < n" and o: "opt_anomaly_starts st ! j = Some s"
  shows "s = j \<or> ((j + 1) - maxl \<le> s \<and> s < (j + 2) - minl)"
proof -
  have "\<not> j < minl - 1"
    using capa_forward_facts(4)[OF assms(1) fw j] o by auto
  then have l: "minl - 1 \<le> j" by simp
  from capa_forward_facts(5)[OF assms(1) fw l j] o
  have "dp_origin saving ca cb pa pb minl maxl (opt_savings st) j = Some s" by simp
  from dp_origin_range[OF assms(1,2) l this] show ?thesis .
qed

lemma map_raise_inverse:
  "map_raise f xs = Inr ys \<Longrightarrow> (\<And>x y. f x = Inr y \<Longrightarrow> g y = x) \<Longrightarrow> map g ys = xs"
  by (induction xs arbitrary: ys) (auto split: sum.splits)

lemma find_affected_components_positions:
  assumes "find_affected_components saving anomalies alpha betas = Inr out"
  shows "map (\<lambda>(s, e, c). (s, e)) out = anomalies"
  using assms unfolding find_affected_components_def
  by (rule map_raise_inverse) (auto split: sum.splits)

subsection \<open>Sample runs\<close>

lemma two_teeth_forward:
  "capa_forward 4 two_teeth 1 [1] 1 [1] 2 2
   = Inr \<lparr>opt_savings = [0, 0, 8, 8, 16], opt_anomaly_starts = [None, Some 0, None, Some 2]\<rparr>"
  by code_simp

lemma two_teeth_run:
  "run_mvcapa 4 two_teeth 1 [1] 1 [1] 2 2 = Inr ([0, 8, 8, 16], [(2, 3, [0]), (0, 1, [0])], [])"
  by code_simp

lemma two_teeth_base:
  "run_base_capa 4 two_teeth 1 [1] 1 [1] 2 2 = Inr ([0, 8, 8, 16], [(2, 3), (0, 1)], [])"
  by code_simp

lemma sorted_wrt_pairs:
  "sorted_wrt R xs \<Longrightarrow> a \<in> set xs \<Longrightarrow> b \<in> set xs \<Longrightarrow> a \<noteq> b \<Longrightarrow> R a b \<or> R b a"
  by (induction xs) auto

lemma run_mvcapa_parts:
  assumes "run_mvcapa n saving ca cb pa pb minl maxl = Inr (opts, coll, pts)"
  obtains st where "capa_forward n saving ca cb pa pb minl maxl = Inr st"
    and "map (\<lambda>(s, e, c). (s, e)) coll
         = filter (\<lambda>(s, e). s < e) (anomaly_walk (opt_anomaly_starts st) (length (opt_anomaly_starts st)))"
    and "map (\<lambda>(s, e, c). (s, e)) pts
         = filter (\<lambda>(s, e). s = e) (anomaly_walk (opt_anomaly_starts st) (length (opt_anomaly_starts st)))"
    and "opts = tl (opt_savings st)"
proof -
  from assms obtain c0 p0 where
    b: "run_base_capa n saving ca cb pa pb minl maxl = Inr (opts, c0, p0)" and
    c: "find_affected_components saving c0 ca cb = Inr coll" and
    p: "find_affected_components saving p0 pa pb = Inr pts"
    by (auto simp: run_mvcapa_def split: sum.splits prod.splits)
  from b obtain st where
    fw: "capa_forward n saving ca cb pa pb minl maxl = Inr st" and
    g: "get_anomalies (opt_anomaly_starts st) = (c0, p0)" and o: "opts = tl (opt_savings st)"
    by (auto simp: run_base_capa_def split: sum.splits prod.splits)
  from g have "c0 = filter (\<lambda>(s, e). s < e) (anomaly_walk (opt_anomaly_starts st) (length (opt_anomaly_starts st)))"
    and "p0 = filter (\<lambda>(s, e). s = e) (anomaly_walk (opt_anomaly_starts st) (length (opt_anomaly_starts st)))"
    by (simp_all add: get_anomalies_walk)
  with find_affected_components_positions[OF c] find_affected_components_positions[OF p] fw o
  show ?thesis by (intro that[of st]) simp_all
qed

lemma covered_positions_member:
  "(s, e) \<in> set xs \<Longrightarrow> s \<le> j \<Longrightarrow> j \<le> e \<Longrightarrow> j \<in> set (covered_positions xs)"
  by (induction xs) (auto simp: covered_positions_def)

lemma flagged_positions_member:
  "j \<in> set (flagged_positions a) \<longleftrightarrow> j < length a \<and> a ! j \<noteq> None"
  by (simp add: flagged_positions_def)

lemma two_teeth_anomalies:
  "get_anomalies [None, Some 0, None, Some 2] = ([(2, 3), (0, 1)], [])"
  by code_simp

subsection \<open>Differences and running sums\<close>

lemma length_np_diff: "length (np_diff a) = length a - 1"
  by (simp add: np_diff_def)

lemma sum_take_np_diff:
  "k < length a \<Longrightarrow> sum_list (take k (np_diff a)) = a ! k - a ! 0"
proof (induction a arbitrary: k)
  case Nil
  then show ?case by simp
next
  case (Cons x xs)
  show ?case
  proof (cases k)
    case 0
    then show ?thesis by simp
  next
    case (Suc j)
    with Cons.prems have j: "j < length xs" by simp
    then obtain y ys where xs: "xs = y # ys" by (cases xs) auto
    have "np_diff (x # xs) = (y - x) # np_diff xs" by (simp add: np_diff_def xs)
    with Suc Cons.IH[OF j] xs show ?thesis by simp
  qed
qed

lemma np_cumsum_nth: "k < length xs \<Longrightarrow> np_cumsum xs ! k = sum_list (take (Suc k) xs)"
  by (simp add: np_cumsum_def cumsum_from_nth)

lemma length_np_cumsum: "length (np_cumsum xs) = length xs"
  by (simp add: np_cumsum_def length_cumsum_from)

lemma cumulative_curve_nth:
  "k < length betas \<Longrightarrow>
   map (\<lambda>x. alpha + x) (np_cumsum betas) ! k = cumulative_penalty (alpha, betas) (Suc k)"
  by (simp add: length_np_cumsum np_cumsum_nth cumulative_penalty_def)

lemma intermediate_capa_penalty_shape:
  assumes "2 \<le> p"
  shows "\<exists>betas. intermediate_capa_penalty chi2_ppf chi2_pdf n p n_params scale = Inr (0, betas)
                 \<and> length betas = p"
  using assms by (simp add: intermediate_capa_penalty_def length_np_diff Let_def)

subsection \<open>Errors of the detector\<close>

lemma unknown_penalty_factory:
  "\<not> known_penalty pen \<Longrightarrow> capa_penalty_factory chi2_ppf chi2_pdf pen = Inl ValueError"
  by (cases pen) (auto simp: known_penalty_def capa_penalty_factory_def)

lemma intermediate_factory:
  "capa_penalty_factory chi2_ppf chi2_pdf (PenaltyName ''intermediate'')
   = Inr (intermediate_capa_penalty chi2_ppf chi2_pdf)"
  by (simp add: capa_penalty_factory_def)

lemma get_penalty_components_collective_error:
  "capa_penalty_factory chi2_ppf chi2_pdf (collective_penalty self) = Inl e \<Longrightarrow>
   get_penalty_components chi2_ppf chi2_pdf self X = Inl e"
  by (simp add: get_penalty_components_def)

lemma get_penalty_components_point_error:
  "capa_penalty_factory chi2_ppf chi2_pdf (point_penalty self) = Inl e \<Longrightarrow>
   \<exists>e'. get_penalty_components chi2_ppf chi2_pdf self X = Inl e'"
  by (auto simp: get_penalty_components_def Let_def split: sum.splits)

lemma get_penalty_components_collective_func_error:
  "capa_penalty_factory chi2_ppf chi2_pdf (collective_penalty self) = Inr f \<Longrightarrow>
   f (shape0 X) (shape1 X) 1 (collective_penalty_scale self) = Inl e \<Longrightarrow>
   get_penalty_components chi2_ppf chi2_pdf self X = Inl e"
  by (simp add: get_penalty_components_def)

lemma get_penalty_components_point_func_error:
  "capa_penalty_factory chi2_ppf chi2_pdf (point_penalty self) = Inr f \<Longrightarrow>
   f (shape0 X) (shape1 X) 1 (point_penalty_scale self) = Inl e \<Longrightarrow>
   \<exists>e'. get_penalty_components chi2_ppf chi2_pdf self X = Inl e'"
  by (auto simp: get_penalty_components_def Let_def split: sum.splits)

lemma Mvcapa_fit_error:
  "\<exists>e. get_penalty_components chi2_ppf chi2_pdf self X' = Inl e \<Longrightarrow>
   check_capa_input X (min_segment_length self) = Inr X' \<Longrightarrow>
   \<exists>e. Mvcapa_fit chi2_ppf chi2_pdf self X = Inl e"
  by (auto simp: Mvcapa_fit_def)

lemma check_capa_input_same:
  "check_capa_input X m = Inr X' \<Longrightarrow> X' = X"
  by (auto simp: check_capa_input_def split: if_splits)

subsection \<open>A run whose anomalies multiply under a larger scale\<close>

lemma argmax1: "argmax_list [a] = 0"
  by (simp add: argmax_list_def)

lemma argmax2: "argmax_list [a, b] = (if b \<le> a then 0 else 1)"
  by (auto simp: argmax_list_def max_def)

lemma split_forward_collective:
  assumes "0 < a" "b < 8" "16 - 2 * b < 171 / 10 - a"
  shows "capa_forward 3 split_saving a [0] b [0] 2 3
         = Inr \<lparr>opt_savings = [0, 0, 8 - b, 171 / 10 - a],
                opt_anomaly_starts = [None, Some 1, Some 0]\<rparr>"
  using assms
  by (simp add: capa_forward_def capa_step_def saving_func_def optimise_savings_def
      penalise_savings_def np_binop_def np_argmax_def argmax1 argmax2 argmax3 split_saving_def
      upt_rec Let_def eval_nat_numeral)

lemma split_forward_points:
  assumes "0 < a" "b < 8" "171 / 10 - a < 16 - 2 * b"
  shows "capa_forward 3 split_saving a [0] b [0] 2 3
         = Inr \<lparr>opt_savings = [0, 0, 8 - b, 16 - 2 * b],
                opt_anomaly_starts = [None, Some 1, Some 2]\<rparr>"
  using assms
  by (simp add: capa_forward_def capa_step_def saving_func_def optimise_savings_def
      penalise_savings_def np_binop_def np_argmax_def argmax1 argmax2 argmax3 split_saving_def
      upt_rec Let_def eval_nat_numeral)

lemma affected_components_single: "affected_components alpha [0] [v] = Inr [0]"
  by (simp add: affected_components_def np_argsort_def np_binop_def np_cumsum_def np_argmax_def
      argmax1)

lemma find_affected_components_single:
  "\<forall>x\<in>set anomalies. length (saving (fst x) (snd x)) = 1 \<Longrightarrow>
   find_affected_components saving anomalies alpha [0]
   = Inr (map (\<lambda>(s, e). (s, e, [0])) anomalies)"
proof -
  assume a: "\<forall>x\<in>set anomalies. length (saving (fst x) (snd x)) = 1"
  have "\<And>x. x \<in> set anomalies \<Longrightarrow>
          (case x of (start, end) \<Rightarrow>
             case affected_components alpha [0] (hd (saving_func saving [start] [end])) of
               Inl e \<Rightarrow> Inl e
             | Inr components \<Rightarrow> Inr (start, end, components))
          = Inr ((\<lambda>(s, e). (s, e, [0])) x)"
  proof -
    fix x assume x: "x \<in> set anomalies"
    obtain s e where xe: "x = (s, e)" by (cases x)
    from a x xe have "length (saving s e) = 1" by auto
    then obtain v where "saving s e = [v]" by (cases "saving s e") auto
    then show "(case x of (start, end) \<Rightarrow>
             case affected_components alpha [0] (hd (saving_func saving [start] [end])) of
               Inl e \<Rightarrow> Inl e
             | Inr components \<Rightarrow> Inr (start, end, components))
          = Inr ((\<lambda>(s, e). (s, e, [0])) x)"
      by (simp add: xe saving_func_def affected_components_single)
  qed
  then show ?thesis unfolding find_affected_components_def by (rule map_raise_Inr)
qed

lemma split_saving_width: "length (split_saving s e) = 1"
  by (simp add: split_saving_def)

lemma split_run_collective:
  assumes "0 < a" "b < 8" "16 - 2 * b < 171 / 10 - a"
  shows "run_mvcapa 3 split_saving a [0] b [0] 2 3
         = Inr ([0, 8 - b, 171 / 10 - a], [(0, 2, [0])], [])"
proof -
  have g: "get_anomalies [None, Some 1, Some 0] = ([(0, 2)], [])" by code_simp
  show ?thesis
    using g
    by (simp add: run_mvcapa_def run_base_capa_def split_forward_collective[OF assms]
        find_affected_components_single split_saving_width)
qed

lemma split_run_points:
  assumes "0 < a" "b < 8" "171 / 10 - a < 16 - 2 * b"
  shows "run_mvcapa 3 split_saving a [0] b [0] 2 3
         = Inr ([0, 8 - b, 16 - 2 * b], [], [(2, 2, [0]), (1, 1, [0])])"
proof -
  have g: "get_anomalies [None, Some 1, Some 2] = ([], [(2, 2), (1, 1)])" by code_simp
  show ?thesis
    using g
    by (simp add: run_mvcapa_def run_base_capa_def split_forward_points[OF assms]
        find_affected_components_single split_saving_width)
qed

lemma ln3_bounds: "1 \<le> ln (3::real)" "ln (3::real) \<le> 13 / 10"
proof -
  have "exp (1::real) \<le> 3" by (rule exp_le)
  then show "1 \<le> ln (3::real)" by (simp add: ln_ge_iff)
  have "1 + (13/10) + (13/10)\<^sup>2 / 2 \<le> exp (13/10 :: real)"
    by (rule exp_lower_Taylor_quadratic) simp
  then have "(3::real) \<le> exp (13/10)" by (simp add: power2_eq_square)
  then have "ln (3::real) \<le> ln (exp (13/10))" by (subst ln_le_cancel_iff) simp_all
  then show "ln (3::real) \<le> 13 / 10" by simp
qed

lemma sqrt_ln3_bounds: "1 \<le> sqrt (ln (3::real))" "sqrt (ln (3::real)) \<le> ln 3"
proof -
  show one: "1 \<le> sqrt (ln (3::real))" using ln3_bounds(1) by simp
  have "sqrt (ln (3::real)) * 1 \<le> sqrt (ln 3) * sqrt (ln 3)"
    using one by (intro mult_left_mono) simp_all
  also have "\<dots> = ln 3" using ln3_bounds(1) by simp
  finally show "sqrt (ln (3::real)) \<le> ln 3" by simp
qed

lemma dense_sparse_values:
  "dense_capa_penalty 3 1 1 s = (s * (1 + 2 * sqrt (ln 3) + 2 * ln 3), [0])"
  "sparse_capa_penalty 3 1 1 s = (2 * s * ln 3, [0])"
  by (simp_all add: dense_capa_penalty_def sparse_capa_penalty_def Let_def)

subsection \<open>The recurrence maximises the total penalised saving\<close>

lemma opt_savings_step:
  assumes "1 \<le> minl" and "capa_forward n saving ca cb pa pb minl maxl = Inr st" and "j < n"
  shows "opt_savings st ! j \<le> opt_savings st ! (j + 1)"
proof (cases "minl - 1 \<le> j")
  case True
  from capa_forward_facts(5)[OF assms(1,2) True assms(3)] dp_value_ge[of "opt_savings st" j]
  show ?thesis by simp
next
  case False
  then have "j \<le> minl - 1" "j + 1 \<le> minl - 1" by simp_all
  with assms(3) capa_forward_facts(3)[OF assms(1,2), of j]
    capa_forward_facts(3)[OF assms(1,2), of "j + 1"]
  show ?thesis by simp
qed

lemma opt_savings_mono:
  assumes "1 \<le> minl" and "capa_forward n saving ca cb pa pb minl maxl = Inr st"
  shows "j \<le> k \<Longrightarrow> k \<le> n \<Longrightarrow> opt_savings st ! j \<le> opt_savings st ! k"
proof (induction k)
  case 0
  then show ?case by simp
next
  case (Suc k)
  show ?case
  proof (cases "j = Suc k")
    case True
    then show ?thesis by simp
  next
    case False
    with Suc.prems have "j \<le> k" "k < n" by simp_all
    with Suc.IH opt_savings_step[OF assms, of k] show ?thesis by simp
  qed
qed

lemma opt_savings_nonneg:
  assumes "1 \<le> minl" and "capa_forward n saving ca cb pa pb minl maxl = Inr st" and "k \<le> n"
  shows "0 \<le> opt_savings st ! k"
  using opt_savings_mono[OF assms(1,2), of 0 k] capa_forward_facts(3)[OF assms(1,2), of 0] assms(3)
  by simp

lemma collective_candidates_nth:
  assumes "(t + 1) - maxl \<le> s" "s < (t + 2) - minl"
  shows "collective_candidates saving ca cb minl maxl opt t ! (s - ((t + 1) - maxl))
         = opt ! s + penalised_saving ca cb (saving s t)"
proof -
  let ?lo = "(t + 1) - maxl"
  let ?hi = "(t + 2) - minl"
  have k: "s - ?lo < length [?lo..<?hi]" using assms by simp
  have "[?lo..<?hi] ! (s - ?lo) = ?lo + (s - ?lo)" using assms by (intro nth_upt) simp
  also have "\<dots> = s" using assms by simp
  finally have "[?lo..<?hi] ! (s - ?lo) = s" .
  then show ?thesis
    unfolding collective_candidates_def using k by (simp only: nth_map)
qed

lemma collective_candidate_le_dp_value:
  assumes "(t + 1) - maxl \<le> s" "s < (t + 2) - minl"
  shows "opt ! s + penalised_saving ca cb (saving s t)
         \<le> dp_value saving ca cb pa pb minl maxl opt t"
proof -
  let ?c = "collective_candidates saving ca cb minl maxl opt t"
  have len: "s - ((t + 1) - maxl) < length ?c"
    using assms by (simp add: collective_candidates_def)
  then have "?c ! (s - ((t + 1) - maxl)) \<in> set ?c" by (rule nth_mem)
  then have "?c ! (s - ((t + 1) - maxl)) \<le> Max (set ?c)" by simp
  then show ?thesis
    unfolding collective_candidates_nth[OF assms]
    by (simp add: dp_value_def hypotheses_def)
qed

lemma point_le_dp_value:
  "opt ! t + penalised_saving pa pb (saving t t) \<le> dp_value saving ca cb pa pb minl maxl opt t"
  by (simp add: dp_value_def hypotheses_def)

lemma total_value_Cons:
  "total_value saving ca cb pa pb (x # xs)
   = anomaly_value saving ca cb pa pb x + total_value saving ca cb pa pb xs"
  by (simp add: total_value_def)

lemma total_value_Nil: "total_value saving ca cb pa pb [] = 0"
  by (simp add: total_value_def)

lemma admissible_Cons:
  "admissible minl maxl m (x # xs) \<Longrightarrow>
   snd x < m \<and> minl - 1 \<le> snd x
   \<and> (fst x = snd x \<or> ((snd x + 1) - maxl \<le> fst x \<and> fst x < (snd x + 2) - minl))
   \<and> admissible minl maxl (fst x) xs"
proof -
  assume a: "admissible minl maxl m (x # xs)"
  then have s: "sorted_wrt (\<lambda>x y. snd y < fst x) xs" and b: "\<forall>y\<in>set xs. snd y < fst x"
    and h: "snd x < m \<and> minl - 1 \<le> snd x
       \<and> (fst x = snd x \<or> ((snd x + 1) - maxl \<le> fst x \<and> fst x < (snd x + 2) - minl))"
    and r: "list_all (\<lambda>x. snd x < m \<and> minl - 1 \<le> snd x \<and>
                     (fst x = snd x \<or> ((snd x + 1) - maxl \<le> fst x \<and> fst x < (snd x + 2) - minl))) xs"
    by (simp_all add: admissible_def)
  from r b have "list_all (\<lambda>y. snd y < fst x \<and> minl - 1 \<le> snd y \<and>
                     (fst y = snd y \<or> ((snd y + 1) - maxl \<le> fst y \<and> fst y < (snd y + 2) - minl))) xs"
    by (simp add: list_all_iff)
  with s h show ?thesis by (simp add: admissible_def)
qed

lemma admissible_bounded:
  assumes "1 \<le> minl" "minl \<le> maxl"
    and fw: "capa_forward n saving ca cb pa pb minl maxl = Inr st"
  shows "admissible minl maxl m xs \<Longrightarrow> m \<le> n \<Longrightarrow>
         total_value saving ca cb pa pb xs \<le> opt_savings st ! m"
proof (induction xs arbitrary: m)
  case Nil
  then show ?case using opt_savings_nonneg[OF assms(1) fw] by (simp add: total_value_Nil)
next
  case (Cons x xs)
  let ?o = "opt_savings st"
  obtain s e where x: "x = (s, e)" by (cases x)
  from admissible_Cons[OF Cons.prems(1)] x have
    e: "e < m" "minl - 1 \<le> e" and
    w: "s = e \<or> ((e + 1) - maxl \<le> s \<and> s < (e + 2) - minl)" and
    r: "admissible minl maxl s xs" by simp_all
  from w assms(1) have se: "s \<le> e" by auto
  with e Cons.prems(2) have sn: "s \<le> n" and en: "e < n" by simp_all
  have ih: "total_value saving ca cb pa pb xs \<le> ?o ! s" by (rule Cons.IH[OF r sn])
  have rec: "?o ! (e + 1) = dp_value saving ca cb pa pb minl maxl ?o e"
    using capa_forward_facts(5)[OF assms(1) fw e(2) en] by simp
  have "anomaly_value saving ca cb pa pb x + ?o ! s \<le> ?o ! (e + 1)"
  proof (cases "s < e")
    case True
    with w have "(e + 1) - maxl \<le> s \<and> s < (e + 2) - minl" by simp
    then have "?o ! s + penalised_saving ca cb (saving s e)
               \<le> dp_value saving ca cb pa pb minl maxl ?o e"
      by (intro collective_candidate_le_dp_value) simp_all
    with True rec show ?thesis by (simp add: anomaly_value_def x)
  next
    case False
    with se have "s = e" by simp
    with point_le_dp_value[of ?o e pa pb saving ca cb minl maxl] rec
    show ?thesis by (simp add: anomaly_value_def x)
  qed
  also have "?o ! (e + 1) \<le> ?o ! m"
    using e(1) Cons.prems(2) by (intro opt_savings_mono[OF assms(1) fw]) simp_all
  finally show ?case using ih by (simp add: total_value_Cons)
qed

lemma anomaly_walk_admissible:
  assumes "1 \<le> minl" "minl \<le> maxl"
    and fw: "capa_forward n saving ca cb pa pb minl maxl = Inr st"
  shows "admissible minl maxl n (anomaly_walk (opt_anomaly_starts st) n)"
proof -
  let ?a = "opt_anomaly_starts st"
  have "\<And>x. x \<in> set (anomaly_walk ?a n) \<Longrightarrow>
          snd x < n \<and> minl - 1 \<le> snd x \<and>
          (fst x = snd x \<or> ((snd x + 1) - maxl \<le> fst x \<and> fst x < (snd x + 2) - minl))"
  proof -
    fix x assume xw: "x \<in> set (anomaly_walk ?a n)"
    obtain s e where x: "x = (s, e)" by (cases x)
    from xw x anomaly_walk_recorded[of s e ?a n] have en: "e < n" and o: "?a ! e = Some s" by simp_all
    have "\<not> e < minl - 1" using capa_forward_facts(4)[OF assms(1) fw en] o by auto
    moreover from capa_forward_origin[OF assms(1,2) fw en o]
    have "s = e \<or> ((e + 1) - maxl \<le> s \<and> s < (e + 2) - minl)" .
    ultimately show "snd x < n \<and> minl - 1 \<le> snd x \<and>
          (fst x = snd x \<or> ((snd x + 1) - maxl \<le> fst x \<and> fst x < (snd x + 2) - minl))"
      using en x by simp
  qed
  then show ?thesis
    unfolding admissible_def list_all_iff using anomaly_walk_descending[of ?a n] by blast
qed

lemma dp_cases:
  assumes ne: "collective_candidates saving ca cb minl maxl opt t \<noteq> []"
  shows "(dp_origin saving ca cb pa pb minl maxl opt t = None
            \<and> dp_value saving ca cb pa pb minl maxl opt t = opt ! t)
       \<or> (\<exists>s. dp_origin saving ca cb pa pb minl maxl opt t = Some s
            \<and> (t + 1) - maxl \<le> s \<and> s < (t + 2) - minl
            \<and> dp_value saving ca cb pa pb minl maxl opt t
                = opt ! s + penalised_saving ca cb (saving s t))
       \<or> (dp_origin saving ca cb pa pb minl maxl opt t = Some t
            \<and> dp_value saving ca cb pa pb minl maxl opt t
                = opt ! t + penalised_saving pa pb (saving t t))"
proof -
  let ?c = "collective_candidates saving ca cb minl maxl opt t"
  let ?h1 = "opt ! t"
  let ?h2 = "Max (set ?c)"
  let ?h3 = "opt ! t + penalised_saving pa pb (saving t t)"
  let ?k = "argmax_list ?c"
  let ?s = "(t + 1) - maxl + ?k"
  have k: "?k < length ?c" by (rule argmax_list_less[OF ne])
  have len: "length ?c = ((t + 2) - minl) - ((t + 1) - maxl)" by (simp add: collective_candidates_def)
  from k len have lo: "(t + 1) - maxl \<le> ?s" and hi: "?s < (t + 2) - minl" by linarith+
  have "?c ! ?k = ?h2" by (rule argmax_list_Max[OF ne])
  moreover have "?c ! (?s - ((t + 1) - maxl)) = opt ! ?s + penalised_saving ca cb (saving ?s t)"
    by (rule collective_candidates_nth[OF lo hi])
  ultimately have h2: "?h2 = opt ! ?s + penalised_saving ca cb (saving ?s t)" by simp
  have hyp: "hypotheses saving ca cb pa pb minl maxl opt t = (?h1, ?h2, ?h3)"
    by (simp add: hypotheses_def)
  consider (a) "?h2 \<le> ?h1 \<and> ?h3 \<le> ?h1" | (b) "\<not> (?h2 \<le> ?h1 \<and> ?h3 \<le> ?h1)" "?h3 \<le> ?h2"
    | (c) "\<not> (?h2 \<le> ?h1 \<and> ?h3 \<le> ?h1)" "\<not> ?h3 \<le> ?h2" by blast
  then show ?thesis
  proof cases
    case a
    then have "dp_origin saving ca cb pa pb minl maxl opt t = None"
      and "dp_value saving ca cb pa pb minl maxl opt t = ?h1"
      by (simp_all add: dp_origin_def dp_value_def hyp)
    then show ?thesis by simp
  next
    case b
    then have "dp_origin saving ca cb pa pb minl maxl opt t = Some ?s"
      by (simp add: dp_origin_def hyp)
    moreover from b have "dp_value saving ca cb pa pb minl maxl opt t = ?h2"
      by (auto simp: dp_value_def hyp max_def)
    ultimately show ?thesis using lo hi h2 by auto
  next
    case c
    then have "dp_origin saving ca cb pa pb minl maxl opt t = Some t"
      by (simp add: dp_origin_def hyp)
    moreover from c have "dp_value saving ca cb pa pb minl maxl opt t = ?h3"
      by (auto simp: dp_value_def hyp max_def)
    ultimately show ?thesis by simp
  qed
qed

lemma anomaly_walk_value:
  assumes "2 \<le> minl" "minl \<le> maxl"
    and fw: "capa_forward n saving ca cb pa pb minl maxl = Inr st"
  shows "m \<le> n \<Longrightarrow>
         opt_savings st ! m = total_value saving ca cb pa pb (anomaly_walk (opt_anomaly_starts st) m)"
proof (induction m rule: less_induct)
  case (less m)
  let ?o = "opt_savings st"
  let ?a = "opt_anomaly_starts st"
  from assms(1) have m1: "1 \<le> minl" by simp
  note f = capa_forward_facts[OF m1 fw]
  show ?case
  proof (cases m)
    case 0
    with f(3)[of 0] show ?thesis by (simp add: anomaly_walk_0 total_value_Nil)
  next
    case (Suc i)
    with less.prems have i: "i < m" "i < n" "i \<le> n" by simp_all
    note ihi = less.IH[OF i(1) i(3)]
    show ?thesis
    proof (cases "minl - 1 \<le> i")
      case False
      then have "i < minl - 1" "Suc i \<le> minl - 1" "i \<le> minl - 1" by simp_all
      with f(3)[of i] f(3)[of "Suc i"] f(4)[of i] i less.prems Suc ihi
      show ?thesis by (simp add: anomaly_walk_Suc)
    next
      case True
      from f(5)[OF True i(2)] have
        v: "?o ! Suc i = dp_value saving ca cb pa pb minl maxl ?o i" and
        o: "?a ! i = dp_origin saving ca cb pa pb minl maxl ?o i" by simp_all
      have ne: "collective_candidates saving ca cb minl maxl ?o i \<noteq> []"
        by (rule window_nonempty[OF m1 assms(2) True])
      from dp_cases[OF ne, of pa pb] show ?thesis
      proof (elim disjE exE conjE)
        assume "dp_origin saving ca cb pa pb minl maxl ?o i = None"
          and "dp_value saving ca cb pa pb minl maxl ?o i = ?o ! i"
        with v o have "?a ! i = None" "?o ! Suc i = ?o ! i" by simp_all
        with ihi Suc show ?thesis by (simp add: anomaly_walk_Suc)
      next
        fix s
        assume "dp_origin saving ca cb pa pb minl maxl ?o i = Some s"
          and lo: "(i + 1) - maxl \<le> s" and hi: "s < (i + 2) - minl"
          and "dp_value saving ca cb pa pb minl maxl ?o i
               = ?o ! s + penalised_saving ca cb (saving s i)"
        with v o have c: "?a ! i = Some s"
          "?o ! Suc i = ?o ! s + penalised_saving ca cb (saving s i)" by simp_all
        from hi assms(1) have si: "s < i" by linarith
        with i have "s < m" "s \<le> n" by simp_all
        from less.IH[OF this] c si Suc show ?thesis
          by (simp add: anomaly_walk_Suc total_value_Cons anomaly_value_def)
      next
        assume "dp_origin saving ca cb pa pb minl maxl ?o i = Some i"
          and "dp_value saving ca cb pa pb minl maxl ?o i
               = ?o ! i + penalised_saving pa pb (saving i i)"
        with v o have "?a ! i = Some i"
          "?o ! Suc i = ?o ! i + penalised_saving pa pb (saving i i)" by simp_all
        with ihi Suc show ?thesis
          by (simp add: anomaly_walk_Suc total_value_Cons anomaly_value_def)
      qed
    qed
  qed
qed

lemma penalised_saving_zero_betas:
  assumes "1 \<le> p"
  shows "penalised_saving alpha (replicate p 0) row
         = sum_list (map (\<lambda>v. max v 0) row) - real (length row) * alpha"
proof -
  from assms obtain q where p: "p = Suc q" by (cases p) auto
  have "sum_list (map (\<lambda>s. max (s - 0) 0 - alpha) row)
        = sum_list (map (\<lambda>v. max v 0) row) - real (length row) * alpha"
    by (induction row) (auto simp: algebra_simps)
  then show ?thesis
    by (simp add: penalised_saving_def penalise_savings_def p list_all_iff)
qed

lemma total_value_uniform:
  assumes "1 \<le> p" and "\<forall>s e. length (saving s e) = p"
  shows "total_value saving alpha (replicate p 0) alpha (replicate p 0) xs
         = sum_list (map (raw_value saving) xs) - real (length xs) * (real p * alpha)"
proof (induction xs)
  case Nil
  then show ?case by (simp add: total_value_Nil)
next
  case (Cons x xs)
  have "anomaly_value saving alpha (replicate p 0) alpha (replicate p 0) x
        = raw_value saving x - real p * alpha"
    using assms(2) by (simp add: anomaly_value_def raw_value_def penalised_saving_zero_betas[OF assms(1)])
  with Cons show ?case by (simp add: total_value_Cons algebra_simps)
qed

lemma count_order:
  fixes X1 X2 c s1 s2 :: real and n1 n2 :: nat
  assumes "0 < c" "s1 < s2"
    and "X2 - real n2 * (c * s1) \<le> X1 - real n1 * (c * s1)"
    and "X1 - real n1 * (c * s2) \<le> X2 - real n2 * (c * s2)"
  shows "n2 \<le> n1"
proof (rule ccontr)
  assume "\<not> n2 \<le> n1"
  then have d: "0 < real n2 - real n1" by simp
  from assms(3,4) have "(real n2 - real n1) * (c * s2) \<le> (real n2 - real n1) * (c * s1)"
    by (simp add: algebra_simps)
  with d have "c * s2 \<le> c * s1" by simp
  with assms(1,2) show False by simp
qed

lemma anomaly_count_walk:
  assumes "1 \<le> minl"
    and "run_mvcapa n saving ca cb pa pb minl maxl = Inr r"
  shows "\<exists>st. capa_forward n saving ca cb pa pb minl maxl = Inr st
            \<and> anomaly_count (Inr r) = length (anomaly_walk (opt_anomaly_starts st) n)"
proof -
  obtain opts coll pts where r: "r = (opts, coll, pts)" by (cases r)
  from assms(2) r obtain st where
    fw: "capa_forward n saving ca cb pa pb minl maxl = Inr st" and
    c: "map (\<lambda>(s, e, c). (s, e)) coll
         = filter (\<lambda>(s, e). s < e) (anomaly_walk (opt_anomaly_starts st) (length (opt_anomaly_starts st)))" and
    p: "map (\<lambda>(s, e, c). (s, e)) pts
         = filter (\<lambda>(s, e). s = e) (anomaly_walk (opt_anomaly_starts st) (length (opt_anomaly_starts st)))" and
    "opts = tl (opt_savings st)"
    by (auto elim: run_mvcapa_parts)
  let ?w = "anomaly_walk (opt_anomaly_starts st) n"
  have len: "length (opt_anomaly_starts st) = n" by (rule capa_forward_facts(2)[OF assms(1) fw])
  have "filter (\<lambda>(s, e). s = e) ?w = filter (\<lambda>x. \<not> (case x of (s, e) \<Rightarrow> s < e)) ?w"
  proof (rule filter_cong[OF refl])
    fix x assume x: "x \<in> set ?w"
    obtain s e where xe: "x = (s, e)" by (cases x)
    with x anomaly_walk_recorded[of s e "opt_anomaly_starts st" n] have "s \<le> e" by simp
    then show "(case x of (s, e) \<Rightarrow> s = e) = (\<not> (case x of (s, e) \<Rightarrow> s < e))"
      by (auto simp: xe)
  qed
  then have "length (filter (\<lambda>(s, e). s < e) ?w) + length (filter (\<lambda>(s, e). s = e) ?w)
             = length ?w"
    by (simp add: sum_length_filter_compl)
  moreover have "length coll = length (filter (\<lambda>(s, e). s < e) ?w)"
    using c len by (metis length_map)
  moreover have "length pts = length (filter (\<lambda>(s, e). s = e) ?w)"
    using p len by (metis length_map)
  ultimately have "anomaly_count (Inr r) = length ?w" by (simp add: anomaly_count_def r)
  with fw show ?thesis by blast
qed

lemma two_teeth_width: "length (two_teeth s e) = 1"
  by (simp add: two_teeth_def)

lemma two_teeth_scale_1:
  "run_mvcapa 4 two_teeth (1 * 1) (replicate 1 0) (1 * 1) (replicate 1 0) 2 2
   = Inr ([0, 9, 9, 18], [(2, 3, [0]), (0, 1, [0])], [])"
  by code_simp

lemma two_teeth_scale_20:
  "run_mvcapa 4 two_teeth (20 * 1) (replicate 1 0) (20 * 1) (replicate 1 0) 2 2
   = Inr ([0, 0, 0, 0], [], [])"
  by code_simp

text \<open>
  The savings of \<open>large_teeth\<close> in exact arithmetic: at scale \<open>0.5\<close> and at scale \<open>1\<close> the
  interval \<open>(0, 3)\<close> beats the pair \<open>(0, 1)\<close>, \<open>(2, 3)\<close> by \<open>0.5\<close>.
\<close>

lemma large_teeth_scale_half:
  "run_mvcapa 4 large_teeth (1 / 2 * 1) (replicate 1 0) (1 / 2 * 1) (replicate 1 0) 2 4
   = Inr ([0, 2 ^ 53 + 7 / 2, 2 ^ 53 + 7 / 2, 2 ^ 53 + 11 / 2], [(0, 3, [0])], [])"
  by code_simp

lemma large_teeth_scale_1:
  "run_mvcapa 4 large_teeth (1 * 1) (replicate 1 0) (1 * 1) (replicate 1 0) 2 4
   = Inr ([0, 2 ^ 53 + 3, 2 ^ 53 + 3, 2 ^ 53 + 5], [(0, 3, [0])], [])"
  by code_simp

text \<open>
  The dense policy has this shape: one constant proportional to the scale, all betas zero.
\<close>

lemma dense_capa_penalty_shape:
  assumes "1 \<le> n" "1 \<le> p" "1 \<le> n_params"
  shows "dense_capa_penalty n p n_params scale
         = (scale * (real (p * n_params) + 2 * sqrt (real (p * n_params) * ln (real n))
                     + 2 * ln (real n)), replicate p 0)"
    and "0 < real (p * n_params) + 2 * sqrt (real (p * n_params) * ln (real n)) + 2 * ln (real n)"
proof -
  show "dense_capa_penalty n p n_params scale
         = (scale * (real (p * n_params) + 2 * sqrt (real (p * n_params) * ln (real n))
                     + 2 * ln (real n)), replicate p 0)"
    by (simp add: dense_capa_penalty_def Let_def)
  have "0 \<le> ln (real n)" using assms(1) by simp
  moreover have "0 < real (p * n_params)" using assms(2,3) by simp
  moreover have "0 \<le> sqrt (real (p * n_params) * ln (real n))"
    using calculation by simp
  ultimately show "0 < real (p * n_params) + 2 * sqrt (real (p * n_params) * ln (real n))
                       + 2 * ln (real n)"
    by linarith
qed

subsection \<open>The engine returns\<close>

text \<open>
  Under a configuration with \<open>1 \<le> minl \<le> maxl\<close>, non-empty penalty arrays and a saving
  matrix whose rows have the length of the penalty arrays, no step of the engine raises.
\<close>

lemma map_raise_total:
  "(\<And>x. x \<in> set xs \<Longrightarrow> \<exists>y. f x = Inr y) \<Longrightarrow> \<exists>ys. map_raise f xs = Inr ys"
proof (induction xs)
  case Nil
  then show ?case by simp
next
  case (Cons x xs)
  from Cons.prems[of x] obtain y where y: "f x = Inr y" by auto
  from Cons.IH Cons.prems obtain ys where "map_raise f xs = Inr ys" by auto
  with y show ?case by simp
qed

lemma penalise_savings_returns:
  assumes "betas \<noteq> []" and "\<And>row. row \<in> set savings \<Longrightarrow> length row = length betas"
  shows "\<exists>ps. penalise_savings savings alpha betas = Inr ps"
proof (cases "list_all (\<lambda>b. b = hd betas) betas")
  case True
  with assms(1) show ?thesis by (cases betas) (auto simp: penalise_savings_def)
next
  case False
  have "\<And>row. row \<in> set savings \<Longrightarrow> \<exists>y. penalise_row alpha betas row = Inr y"
    using penalise_row_general[OF assms(2) assms(1)] by blast
  then have "\<exists>ps. map_raise (penalise_row alpha betas) savings = Inr ps"
    by (rule map_raise_total)
  then show ?thesis by (simp add: not_all_equal_Cons[OF assms(1) False])
qed

lemma optimise_savings_returns:
  assumes "betas \<noteq> []" and "\<forall>s. length (saving s t) = length betas"
    and "starts \<noteq> []" and "\<And>s. s \<in> set starts \<Longrightarrow> s < length opt"
  shows "\<exists>r. optimise_savings starts opt (map (\<lambda>s. saving s t) starts) alpha betas = Inr r"
proof -
  let ?M = "map (\<lambda>s. saving s t) starts"
  have "\<exists>ps. penalise_savings ?M alpha betas = Inr ps"
    using assms(2) by (intro penalise_savings_returns[OF assms(1)]) auto
  then obtain ps where ps: "penalise_savings ?M alpha betas = Inr ps" by blast
  have l: "length ps = length starts"
    using penalise_savings_map[OF ps] by simp
  have bin: "np_binop (+) (map (\<lambda>s. opt ! s) starts) ps
             = Inr (map2 (+) (map (\<lambda>s. opt ! s) starts) ps)"
    using l by (simp add: np_binop_def)
  have ne: "map2 (+) (map (\<lambda>s. opt ! s) starts) ps \<noteq> []"
    using l assms(3) by (cases starts; cases ps) auto
  have rng: "list_all (\<lambda>s. s < length opt) starts"
    using assms(4) by (simp add: list_all_iff)
  show ?thesis
    using ne rng by (simp add: optimise_savings_def ps bin np_argmax_def)
qed

lemma capa_step_returns:
  assumes "1 \<le> minl" "minl \<le> maxl" "minl - 1 \<le> t" "t < length (opt_savings st)"
    and "cb \<noteq> []" "pb \<noteq> []"
    and "\<forall>s e. length (saving s e) = length cb" "length pb = length cb"
  shows "\<exists>st'. capa_step saving ca cb pa pb minl maxl t st = Inr st'"
proof -
  let ?starts = "[(t + 1) - maxl..<(t + 2) - minl]"
  have rows: "saving_func saving ?starts (replicate (length ?starts) t)
              = map (\<lambda>s. saving s t) ?starts"
    unfolding saving_func_def by (rule map2_replicate_right)
  have prow: "saving_func saving [t] [t] = map (\<lambda>s. saving s t) [t]"
    by (simp add: saving_func_def)
  have ne: "?starts \<noteq> []"
    using window_nonempty[OF assms(1-3), of saving ca cb "opt_savings st"]
    by (simp add: collective_candidates_def)
  have w: "\<forall>s. length (saving s t) = length cb" using assms(7) by simp
  have "\<And>s. s \<in> set ?starts \<Longrightarrow> s < length (opt_savings st)"
    using assms(1,3,4) by auto
  with optimise_savings_returns[where betas=cb and saving=saving and t=t and starts="?starts"
        and opt="opt_savings st" and alpha=ca] assms(5) w ne
  have "\<exists>r. optimise_savings ?starts (opt_savings st) (map (\<lambda>s. saving s t) ?starts) ca cb = Inr r"
    by blast
  then obtain v2 s2 where
    c: "optimise_savings ?starts (opt_savings st) (map (\<lambda>s. saving s t) ?starts) ca cb = Inr (v2, s2)"
    by auto
  have wp: "\<forall>s. length (saving s t) = length pb" using assms(7,8) by simp
  have "[t] \<noteq> []" by simp
  from optimise_savings_returns[where betas=pb and saving=saving and t=t and starts="[t]"
        and opt="opt_savings st" and alpha=pa] assms(6) wp assms(4)
  have "\<exists>r. optimise_savings [t] (opt_savings st) (map (\<lambda>s. saving s t) [t]) pa pb = Inr r"
    by simp
  then obtain v3 s3 where
    p: "optimise_savings [t] (opt_savings st) (map (\<lambda>s. saving s t) [t]) pa pb = Inr (v3, s3)"
    by auto
  show ?thesis
    unfolding capa_step_def Let_def rows prow c p by simp
qed

lemma capa_forward_returns:
  assumes "1 \<le> minl" "minl \<le> maxl" "cb \<noteq> []" "pb \<noteq> []"
    and "\<forall>s e. length (saving s e) = length cb" "length pb = length cb"
  shows "\<exists>st. capa_forward n saving ca cb pa pb minl maxl = Inr st"
proof -
  let ?step = "capa_step saving ca cb pa pb minl maxl"
  let ?st0 = "\<lparr>opt_savings = replicate (n + 1) (0::real), opt_anomaly_starts = replicate n None\<rparr>"
  have "m \<le> n \<Longrightarrow> \<exists>st. fold_raise ?step [minl - 1..<m] ?st0 = Inr st" for m
  proof (induction m)
    case 0
    then show ?case by simp
  next
    case (Suc m)
    show ?case
    proof (cases "minl - 1 \<le> m")
      case False
      then show ?thesis by simp
    next
      case True
      from Suc obtain st1 where f1: "fold_raise ?step [minl - 1..<m] ?st0 = Inr st1" by auto
      from Suc.prems have mn: "m \<le> n" by simp
      from capa_prefix_invariant[OF assms(1) f1 True mn]
      have "length (opt_savings st1) = n + 1" by blast
      with Suc.prems have "m < length (opt_savings st1)" by simp
      from capa_step_returns[OF assms(1,2) True this assms(3,4,5,6)]
      obtain st2 where "?step m st1 = Inr st2" by blast
      with True f1 show ?thesis by (simp add: fold_raise_snoc)
    qed
  qed
  from this[of n] show ?thesis by (simp add: capa_forward_def)
qed

lemma affected_components_returns:
  assumes "betas \<noteq> []" "length row = length betas"
  shows "\<exists>cs. affected_components alpha betas row = Inr cs"
proof -
  let ?o = "np_argsort (map uminus row)"
  have l: "length (map (\<lambda>j. row ! j) ?o) = length betas"
    using assms(2) by (simp add: np_argsort_def)
  have bin: "np_binop (-) (map (\<lambda>j. row ! j) ?o) betas
             = Inr (map2 (-) (map (\<lambda>j. row ! j) ?o) betas)"
    using l by (simp add: np_binop_def)
  have "length (map (\<lambda>x. x - alpha) (np_cumsum (map2 (-) (map (\<lambda>j. row ! j) ?o) betas)))
        = length betas"
    using l by (simp add: length_np_cumsum)
  with assms(1)
  have ne: "map (\<lambda>x. x - alpha) (np_cumsum (map2 (-) (map (\<lambda>j. row ! j) ?o) betas)) \<noteq> []"
    by (metis length_0_conv)
  show ?thesis
    unfolding affected_components_def Let_def bin using ne by (simp add: np_argmax_def)
qed

lemma find_affected_components_returns:
  assumes "betas \<noteq> []" "\<forall>s e. length (saving s e) = length betas"
  shows "\<exists>out. find_affected_components saving anomalies alpha betas = Inr out"
  unfolding find_affected_components_def
proof (rule map_raise_total)
  fix x :: "nat \<times> nat"
  obtain s e where x: "x = (s, e)" by (cases x)
  from assms(2) have "length (saving s e) = length betas" by simp
  from affected_components_returns[OF assms(1) this, of alpha]
  obtain cs where "affected_components alpha betas (saving s e) = Inr cs" by blast
  then show "\<exists>y. (case x of (start, end) \<Rightarrow>
                 case affected_components alpha betas (hd (saving_func saving [start] [end])) of
                   Inl e \<Rightarrow> Inl e
                 | Inr components \<Rightarrow> Inr (start, end, components)) = Inr y"
    by (simp add: x saving_func_def)
qed

lemma run_mvcapa_returns:
  assumes "1 \<le> minl" "minl \<le> maxl" "cb \<noteq> []" "pb \<noteq> []"
    and "\<forall>s e. length (saving s e) = length cb" "length pb = length cb"
  shows "\<exists>r. run_mvcapa n saving ca cb pa pb minl maxl = Inr r"
proof -
  from capa_forward_returns[OF assms] obtain st where
    fw: "capa_forward n saving ca cb pa pb minl maxl = Inr st" by blast
  obtain c0 p0 where g: "get_anomalies (opt_anomaly_starts st) = (c0, p0)"
    by (cases "get_anomalies (opt_anomaly_starts st)")
  from find_affected_components_returns[OF assms(3,5)] obtain c1 where
    c: "find_affected_components saving c0 ca cb = Inr c1" by blast
  have "\<forall>s e. length (saving s e) = length pb" using assms(5,6) by simp
  from find_affected_components_returns[OF assms(4) this] obtain p1 where
    p: "find_affected_components saving p0 pa pb = Inr p1" by blast
  show ?thesis by (simp add: run_mvcapa_def run_base_capa_def fw g c p)
qed

section \<open>The claims\<close>

subsection \<open>The recurrence of the forward pass\<close>

text \<open>
  Claim C1. For every saving function, penalties and valid configuration
  (\<open>2 \<le> minl \<le> maxl\<close>), whenever the forward pass of \<^verbatim>\<open>run_base_capa\<close> returns, at
  each \<open>t\<close> from \<open>minl - 1\<close> to \<open>n - 1\<close> the candidate window
  \<open>[max(0, t - maxl + 1), t - minl + 2)\<close> is not empty, \<open>opt_savings[t + 1]\<close> is the
  maximum of the three hypothesis values (\<open>dp_value\<close>: the carried-forward \<open>opt_savings[t]\<close>,
  the maximum over the window of \<open>opt_savings[s] + penalised_saving(s, t)\<close>, and
  \<open>opt_savings[t]\<close> plus the penalised point saving), and the backtrack entry at \<open>t\<close> is
  \<open>dp_origin\<close>: unset when the first hypothesis attains the maximum, the first maximising
  start when the second does and the first does not, and \<open>t\<close> otherwise.
\<close>

theorem capa_forward_recurrence:
  assumes "2 \<le> minl" and "minl \<le> maxl"
    and "capa_forward n saving ca cb pa pb minl maxl = Inr st"
    and "minl - 1 \<le> t" and "t < n"
  shows "collective_candidates saving ca cb minl maxl (opt_savings st) t \<noteq> []
         \<and> opt_savings st ! (t + 1) = dp_value saving ca cb pa pb minl maxl (opt_savings st) t
         \<and> opt_anomaly_starts st ! t = dp_origin saving ca cb pa pb minl maxl (opt_savings st) t"
proof -
  from assms(1) have m1: "1 \<le> minl" by simp
  from capa_forward_facts(5)[OF m1 assms(3,4,5)] window_nonempty[OF m1 assms(2,4)]
  show ?thesis by simp
qed

theorem capa_forward_recurrence_witness:
  "(2::nat) \<le> 2 \<and> (3::nat) < 4
   \<and> capa_forward 4 two_teeth 1 [1] 1 [1] 2 2
       = Inr \<lparr>opt_savings = [0, 0, 8, 8, 16], opt_anomaly_starts = [None, Some 0, None, Some 2]\<rparr>
   \<and> collective_candidates two_teeth 1 [1] 2 2 [0, 0, 8, 8, 16] 3 \<noteq> []
   \<and> [0, 0, 8, 8, 16] ! (3 + 1) = dp_value two_teeth 1 [1] 1 [1] 2 2 [0, 0, 8, 8, 16] 3
   \<and> [None, Some 0, None, Some 2] ! 3 = dp_origin two_teeth 1 [1] 1 [1] 2 2 [0, 0, 8, 8, 16] 3"
  using capa_forward_recurrence[of 2 2 4 two_teeth 1 "[1]" 1 "[1]"
      "\<lparr>opt_savings = [0, 0, 8, 8, 16], opt_anomaly_starts = [None, Some 0, None, Some 2]\<rparr>" 3]
    two_teeth_forward
  by simp

subsection \<open>The optimal savings\<close>

text \<open>
  Claim C9. For every saving function and penalties of any sign, and every
  \<open>min_segment_length \<ge> 1\<close> (so for every valid configuration), the array of optimal
  savings that \<^verbatim>\<open>run_base_capa\<close> returns has \<open>n\<close> entries, is non-decreasing, and all its
  entries, the first one included, are non-negative.
\<close>

theorem opt_savings_nonneg_nondecreasing:
  assumes "1 \<le> minl"
    and "run_base_capa n saving ca cb pa pb minl maxl = Inr (opts, coll, pts)"
  shows "length opts = n \<and> sorted opts \<and> list_all (\<lambda>x. 0 \<le> x) opts"
proof -
  from assms(2) obtain st where
    fw: "capa_forward n saving ca cb pa pb minl maxl = Inr st" and
    opts: "opts = tl (opt_savings st)"
    by (auto simp: run_base_capa_def split: sum.splits prod.splits)
  let ?o = "opt_savings st"
  note f = capa_forward_facts[OF assms(1) fw]
  have step: "\<And>j. j < n \<Longrightarrow> ?o ! j \<le> ?o ! (j + 1)"
  proof -
    fix j assume j: "j < n"
    show "?o ! j \<le> ?o ! (j + 1)"
    proof (cases "minl - 1 \<le> j")
      case True
      from f(5)[OF True j] dp_value_ge[of ?o j] show ?thesis by simp
    next
      case False
      then have "j \<le> minl - 1" "j + 1 \<le> minl - 1" by simp_all
      with j f(3)[of j] f(3)[of "j + 1"] show ?thesis by simp
    qed
  qed
  have mono: "\<And>j. j \<le> n \<Longrightarrow> 0 \<le> ?o ! j"
  proof -
    fix j show "j \<le> n \<Longrightarrow> 0 \<le> ?o ! j"
    proof (induction j)
      case 0
      with f(3)[of 0] show ?case by simp
    next
      case (Suc j)
      with step[of j] show ?case by simp
    qed
  qed
  have len: "length opts = n" using f(1) opts by simp
  have nth: "\<And>i. i < n \<Longrightarrow> opts ! i = ?o ! (i + 1)"
    using f(1) opts by (simp add: nth_tl)
  have "sorted opts"
    unfolding sorted_iff_nth_Suc using len nth step by simp
  moreover have "list_all (\<lambda>x. 0 \<le> x) opts"
    unfolding list_all_length using len nth mono by simp
  ultimately show ?thesis using len by simp
qed

theorem opt_savings_nonneg_nondecreasing_witness:
  "(1::nat) \<le> 2
   \<and> run_base_capa 4 two_teeth 1 [1] 1 [1] 2 2 = Inr ([0, 8, 8, 16], [(2, 3), (0, 1)], [])
   \<and> length [0, 8, 8, 16::real] = 4 \<and> sorted [0, 8, 8, 16::real]
   \<and> list_all (\<lambda>x. 0 \<le> x) [0, 8, 8, 16::real]"
  using opt_savings_nonneg_nondecreasing[of 2 4 two_teeth 1 "[1]" 1 "[1]" 2
      "[0, 8, 8, 16]" "[(2, 3), (0, 1)]" "[]"] two_teeth_base
  by simp

subsection \<open>The length of a collective anomaly\<close>

text \<open>
  Claim C10. For every saving function, penalties and configuration with
  \<open>1 \<le> minl \<le> maxl\<close> (so for every valid configuration), every collective anomaly
  \<open>(s, e, components)\<close> that \<^verbatim>\<open>run_mvcapa\<close> returns has \<open>s < e < n\<close> and
  \<open>minl \<le> e - s + 1 \<le> maxl\<close>.
\<close>

theorem collective_anomaly_length_bounds:
  assumes "1 \<le> minl" and "minl \<le> maxl"
    and "run_mvcapa n saving ca cb pa pb minl maxl = Inr (opts, coll, pts)"
    and "(s, e, comps) \<in> set coll"
  shows "s < e \<and> e < n \<and> minl \<le> e - s + 1 \<and> e - s + 1 \<le> maxl"
proof -
  from assms(3) obtain st where
    fw: "capa_forward n saving ca cb pa pb minl maxl = Inr st" and
    c: "map (\<lambda>(s, e, c). (s, e)) coll
         = filter (\<lambda>(s, e). s < e) (anomaly_walk (opt_anomaly_starts st) (length (opt_anomaly_starts st)))" and
    "map (\<lambda>(s, e, c). (s, e)) pts
         = filter (\<lambda>(s, e). s = e) (anomaly_walk (opt_anomaly_starts st) (length (opt_anomaly_starts st)))" and
    "opts = tl (opt_savings st)"
    by (rule run_mvcapa_parts)
  from assms(4) have "(s, e) \<in> set (map (\<lambda>(s, e, c). (s, e)) coll)" by force
  with c have w: "(s, e) \<in> set (anomaly_walk (opt_anomaly_starts st) (length (opt_anomaly_starts st)))"
    and se: "s < e" by auto
  from anomaly_walk_recorded[OF w] capa_forward_facts(2)[OF assms(1) fw]
  have en: "e < n" and rec: "opt_anomaly_starts st ! e = Some s" by simp_all
  from capa_forward_origin[OF assms(1,2) fw en rec] se
  have "(e + 1) - maxl \<le> s \<and> s < (e + 2) - minl" by simp
  with se en show ?thesis by linarith
qed

theorem collective_anomaly_length_bounds_witness:
  "(1::nat) \<le> 2 \<and> run_mvcapa 4 two_teeth 1 [1] 1 [1] 2 2
      = Inr ([0, 8, 8, 16], [(2, 3, [0]), (0, 1, [0])], [])
   \<and> (2::nat) < 3 \<and> (3::nat) < 4 \<and> (2::nat) \<le> 3 - 2 + 1 \<and> (3::nat) - 2 + 1 \<le> 2"
  using collective_anomaly_length_bounds[of 2 2 4 two_teeth 1 "[1]" 1 "[1]"
      "[0, 8, 8, 16]" "[(2, 3, [0]), (0, 1, [0])]" "[]" 2 3 "[0]"] two_teeth_run
  by simp

subsection \<open>The order of the anomalies\<close>

text \<open>
  Claim C7, as amended. In each of the two lists that \<^verbatim>\<open>run_mvcapa\<close> returns, the
  anomalies are in descending order of position: every anomaly ends before the start of
  each anomaly listed before it. The lists are built by \<^verbatim>\<open>append\<close> during the backward
  walk and are neither reversed nor sorted afterwards.
\<close>

theorem anomalies_listed_latest_first:
  assumes "run_mvcapa n saving ca cb pa pb minl maxl = Inr (opts, coll, pts)"
  shows "sorted_wrt (\<lambda>a b. fst (snd b) < fst a) coll \<and> sorted_wrt (\<lambda>a b. fst (snd b) < fst a) pts"
proof -
  from assms obtain st where
    "capa_forward n saving ca cb pa pb minl maxl = Inr st" and
    c: "map (\<lambda>(s, e, c). (s, e)) coll
         = filter (\<lambda>(s, e). s < e) (anomaly_walk (opt_anomaly_starts st) (length (opt_anomaly_starts st)))" and
    p: "map (\<lambda>(s, e, c). (s, e)) pts
         = filter (\<lambda>(s, e). s = e) (anomaly_walk (opt_anomaly_starts st) (length (opt_anomaly_starts st)))" and
    "opts = tl (opt_savings st)"
    by (rule run_mvcapa_parts)
  have "sorted_wrt (\<lambda>x y. snd y < fst x) (map (\<lambda>(s, e, c). (s, e)) coll)"
    unfolding c by (intro sorted_wrt_filter anomaly_walk_descending)
  moreover have "sorted_wrt (\<lambda>x y. snd y < fst x) (map (\<lambda>(s, e, c). (s, e)) pts)"
    unfolding p by (intro sorted_wrt_filter anomaly_walk_descending)
  ultimately show ?thesis
    by (simp add: sorted_wrt_map case_prod_beta)
qed

theorem anomalies_listed_latest_first_witness:
  "run_mvcapa 4 two_teeth 1 [1] 1 [1] 2 2 = Inr ([0, 8, 8, 16], [(2, 3, [0]), (0, 1, [0])], [])
   \<and> sorted_wrt (\<lambda>a b. fst (snd b) < fst a) [(2::nat, 3::nat, [0::nat]), (0, 1, [0])]"
  using anomalies_listed_latest_first[of 4 two_teeth 1 "[1]" 1 "[1]" 2 2
      "[0, 8, 8, 16]" "[(2, 3, [0]), (0, 1, [0])]" "[]"] two_teeth_run
  by simp

text \<open>
  Claim C7 as stated fails: with two collective anomalies the list is \<open>(2, 3)\<close> before
  \<open>(0, 1)\<close>, which is not ascending.
\<close>

theorem anomalies_not_ascending:
  "run_mvcapa 4 two_teeth 1 [1] 1 [1] 2 2 = Inr ([0, 8, 8, 16], [(2, 3, [0]), (0, 1, [0])], [])
   \<and> \<not> sorted (map fst [(2::nat, 3::nat, [0::nat]), (0, 1, [0])])"
  using two_teeth_run by simp

subsection \<open>The reconstructed anomalies\<close>

text \<open>
  Claim C4, as amended. For every backtrack array that the forward pass produces under a
  configuration with \<open>1 \<le> minl \<le> maxl\<close>, \<^verbatim>\<open>get_anomalies\<close> emits collective anomalies
  \<open>(s, e)\<close> with \<open>s < e\<close> and point anomalies \<open>(e, e)\<close>, each with \<open>e < n\<close> and each
  recorded in the array at its end (\<open>origin[e] = s\<close>); any two different anomalies share no
  position; and every flagged position (every position whose entry of the array is set)
  lies inside an emitted anomaly.
\<close>

theorem reconstruction_disjoint_in_range_covering:
  assumes "1 \<le> minl" and "minl \<le> maxl"
    and "capa_forward n saving ca cb pa pb minl maxl = Inr st"
    and "get_anomalies (opt_anomaly_starts st) = (coll, pts)"
  shows "(\<forall>(s, e)\<in>set coll. s < e \<and> e < n \<and> opt_anomaly_starts st ! e = Some s)
       \<and> (\<forall>(s, e)\<in>set pts. s = e \<and> e < n \<and> opt_anomaly_starts st ! e = Some s)
       \<and> (\<forall>a\<in>set (coll @ pts). \<forall>b\<in>set (coll @ pts). a \<noteq> b \<longrightarrow> disjoint_anomalies a b)
       \<and> set (flagged_positions (opt_anomaly_starts st)) \<subseteq> set (covered_positions (coll @ pts))"
proof -
  define a where "a = opt_anomaly_starts st"
  define w where "w = anomaly_walk a (length a)"
  have len: "length a = n" unfolding a_def by (rule capa_forward_facts(2)[OF assms(1,3)])
  from assms(4) have c: "coll = filter (\<lambda>(s, e). s < e) w" and p: "pts = filter (\<lambda>(s, e). s = e) w"
    unfolding w_def a_def by (simp_all add: get_anomalies_walk)
  have rec: "e < n \<and> s \<le> e \<and> a ! e = Some s" if "(s, e) \<in> set w" for s e
    using anomaly_walk_recorded[of s e a "length a"] that len unfolding w_def by simp
  have cw: "x \<in> set w" if "x \<in> set coll" for x using that unfolding c by simp
  have pw: "x \<in> set w" if "x \<in> set pts" for x using that unfolding p by simp
  have A: "\<forall>(s, e)\<in>set coll. s < e \<and> e < n \<and> a ! e = Some s"
  proof (intro ballI, clarify)
    fix s e assume m: "(s, e) \<in> set coll"
    then have "s < e" unfolding c by simp
    with rec[OF cw[OF m]] show "s < e \<and> e < n \<and> a ! e = Some s" by simp
  qed
  have B: "\<forall>(s, e)\<in>set pts. s = e \<and> e < n \<and> a ! e = Some s"
  proof (intro ballI, clarify)
    fix s e assume m: "(s, e) \<in> set pts"
    then have "s = e" unfolding p by simp
    with rec[OF pw[OF m]] show "s = e \<and> e < n \<and> a ! e = Some s" by simp
  qed
  have sup: "x \<in> set (coll @ pts)" if x: "x \<in> set w" for x
  proof -
    obtain s e where xe: "x = (s, e)" by (cases x)
    with x rec[of s e] have "s < e \<or> s = e" by auto
    with x xe show ?thesis unfolding c p by auto
  qed
  have C: "\<forall>x\<in>set (coll @ pts). \<forall>y\<in>set (coll @ pts). x \<noteq> y \<longrightarrow> disjoint_anomalies x y"
  proof (intro ballI impI)
    fix x y assume "x \<in> set (coll @ pts)" "y \<in> set (coll @ pts)" and ne: "x \<noteq> y"
    moreover have "set (coll @ pts) \<subseteq> set w" unfolding c p by auto
    ultimately have xw: "x \<in> set w" and yw: "y \<in> set w" by blast+
    have "sorted_wrt (\<lambda>x y. snd y < fst x) w" unfolding w_def by (rule anomaly_walk_descending)
    from sorted_wrt_pairs[OF this xw yw ne]
    show "disjoint_anomalies x y" unfolding disjoint_anomalies_def by blast
  qed
  have D: "set (flagged_positions a) \<subseteq> set (covered_positions (coll @ pts))"
  proof
    fix j assume "j \<in> set (flagged_positions a)"
    then have jl: "j < length a" and "a ! j \<noteq> None" by (simp_all add: flagged_positions_member)
    then obtain s where o: "a ! j = Some s" by auto
    from jl len have j: "j < n" by simp
    from capa_forward_origin[OF assms(1,2,3) j] o assms(1) have sj: "s \<le> j"
      unfolding a_def by fastforce
    from anomaly_walk_covers[OF jl o sj] obtain x where
      x: "x \<in> set w" "fst x \<le> j" "j \<le> snd x" unfolding w_def by blast
    from sup[OF x(1)] have "(fst x, snd x) \<in> set (coll @ pts)" by simp
    from covered_positions_member[OF this x(2,3)]
    show "j \<in> set (covered_positions (coll @ pts))" .
  qed
  from A B C D show ?thesis unfolding a_def by blast
qed

theorem reconstruction_disjoint_in_range_covering_witness:
  "(1::nat) \<le> 2
   \<and> capa_forward 4 two_teeth 1 [1] 1 [1] 2 2
       = Inr \<lparr>opt_savings = [0, 0, 8, 8, 16], opt_anomaly_starts = [None, Some 0, None, Some 2]\<rparr>
   \<and> get_anomalies [None, Some 0, None, Some 2] = ([(2, 3), (0, 1)], [])
   \<and> list_all (\<lambda>(s, e). s < e \<and> e < 4 \<and> [None, Some 0, None, Some 2] ! e = Some s)
        [(2, 3), (0, 1)]
   \<and> disjoint_anomalies (2, 3) (0, 1)
   \<and> set (flagged_positions [None, Some 0, None, Some 2])
       \<subseteq> set (covered_positions ([(2, 3), (0, 1)] @ []))"
  using reconstruction_disjoint_in_range_covering[of 2 2 4 two_teeth 1 "[1]" 1 "[1]"
      "\<lparr>opt_savings = [0, 0, 8, 8, 16], opt_anomaly_starts = [None, Some 0, None, Some 2]\<rparr>"
      "[(2, 3), (0, 1)]" "[]"]
    two_teeth_forward two_teeth_anomalies
  by (simp add: disjoint_anomalies_def)

text \<open>
  Claim C4 as stated fails in its last part. With five samples, the savings of
  \<open>overlapping_teeth\<close>, \<open>alpha = 1\<close> and \<open>betas = [0]\<close> for both penalties, \<open>minl = 2\<close> and
  \<open>maxl = 3\<close>, the forward pass records the start \<open>1\<close> at position \<open>3\<close> and the start \<open>2\<close>
  at position \<open>4\<close>. The reconstructor emits the one anomaly \<open>(2, 4)\<close>. It covers the
  positions \<open>2, 3, 4\<close>: not exactly the positions \<open>3, 4\<close> whose entry is set, and not exactly
  the positions \<open>1, 2, 3, 4\<close> inside the recorded intervals either.
\<close>

theorem reconstruction_covers_unflagged_position:
  "capa_forward 5 overlapping_teeth 1 [0] 1 [0] 2 3
     = Inr \<lparr>opt_savings = [0, 0, 0, 0, 9, 19],
            opt_anomaly_starts = [None, None, None, Some 1, Some 2]\<rparr>
   \<and> get_anomalies [None, None, None, Some 1, Some 2] = ([(2, 4)], [])
   \<and> set (covered_positions ([(2, 4)] @ []))
       \<noteq> set (flagged_positions [None, None, None, Some 1, Some 2])
   \<and> set (covered_positions ([(2, 4)] @ []))
       \<noteq> set (recorded_positions [None, None, None, Some 1, Some 2])"
proof -
  have "capa_forward 5 overlapping_teeth 1 [0] 1 [0] 2 3
     = Inr \<lparr>opt_savings = [0, 0, 0, 0, 9, 19],
            opt_anomaly_starts = [None, None, None, Some 1, Some 2]\<rparr>"
    by code_simp
  moreover have "get_anomalies [None, None, None, Some 1, Some 2] = ([(2, 4)], [])"
    by code_simp
  moreover have "set (covered_positions ([(2, 4)] @ []))
       \<noteq> set (flagged_positions [None, None, None, Some 1, Some 2])"
    by code_simp
  moreover have "set (covered_positions ([(2, 4)] @ []))
       \<noteq> set (recorded_positions [None, None, None, Some 1, Some 2])"
    by code_simp
  ultimately show ?thesis by blast
qed

subsection \<open>The combined penalty\<close>

text \<open>
  Claim C5. For every \<open>n\<close>, every \<open>p \<ge> 2\<close>, every parameter count and every scale (also
  those outside \<open>n \<ge> 1\<close>, \<open>n_params \<ge> 1\<close>, \<open>scale > 0\<close>), the intermediate policy returns a
  penalty, the combined policy returns \<open>alpha = 0\<close> and \<open>p\<close> betas, and at every component
  count \<open>k\<close> in \<open>1..p\<close> the cumulative combined penalty equals the minimum of the dense,
  sparse and intermediate cumulative penalties at \<open>k\<close>. Arithmetic is that of the reals.
\<close>

theorem combined_is_pointwise_minimum:
  assumes "2 \<le> p"
  shows "\<exists>inter betas.
           intermediate_capa_penalty chi2_ppf chi2_pdf n p n_params scale = Inr inter
         \<and> combined_capa_penalty chi2_ppf chi2_pdf n p n_params scale = Inr (0, betas)
         \<and> length betas = p
         \<and> (\<forall>k. 1 \<le> k \<and> k \<le> p \<longrightarrow>
               cumulative_penalty (0, betas) k
               = min (cumulative_penalty (dense_capa_penalty n p n_params scale) k)
                   (min (cumulative_penalty (sparse_capa_penalty n p n_params scale) k)
                        (cumulative_penalty inter k)))"
proof -
  from intermediate_capa_penalty_shape[OF assms] obtain ib where
    i: "intermediate_capa_penalty chi2_ppf chi2_pdf n p n_params scale = Inr (0, ib)"
    and li: "length ib = p" by blast
  obtain da db where d: "dense_capa_penalty n p n_params scale = (da, db)" by (cases "dense_capa_penalty n p n_params scale")
  obtain sa sb where s: "sparse_capa_penalty n p n_params scale = (sa, sb)" by (cases "sparse_capa_penalty n p n_params scale")
  have ld: "length db = p" using d by (auto simp: dense_capa_penalty_def Let_def)
  have ls: "length sb = p" using s by (auto simp: sparse_capa_penalty_def Let_def)
  let ?dp = "map (\<lambda>x. da + x) (np_cumsum db)"
  let ?sp = "map (\<lambda>x. sa + x) (np_cumsum sb)"
  let ?ip = "map (\<lambda>x. 0 + x) (np_cumsum ib)"
  let ?mins = "map2 min ?dp (map2 min ?sp ?ip)"
  let ?betas = "np_diff (0 # ?mins)"
  have lm: "length ?mins = p" using ld ls li by (simp add: length_np_cumsum)
  have c: "combined_capa_penalty chi2_ppf chi2_pdf n p n_params scale = Inr (0, ?betas)"
  proof -
    have z: "(+) (0::real) = (\<lambda>x. x)" by (simp add: fun_eq_iff)
    show ?thesis using assms by (simp add: combined_capa_penalty_def d s i Let_def z)
  qed
  have lb: "length ?betas = p" using lm by (simp add: length_np_diff)
  have cum: "cumulative_penalty (0, ?betas) k
               = min (cumulative_penalty (da, db) k)
                   (min (cumulative_penalty (sa, sb) k) (cumulative_penalty (0, ib) k))"
    if k: "1 \<le> k \<and> k \<le> p" for k
  proof -
    from k obtain j where kj: "k = Suc j" and j: "j < p" by (cases k) auto
    have "cumulative_penalty (0, ?betas) k = sum_list (take k ?betas)"
      by (simp add: cumulative_penalty_def)
    also have "\<dots> = (0 # ?mins) ! k - (0 # ?mins) ! 0"
      using k lm by (intro sum_take_np_diff) simp
    also have "\<dots> = ?mins ! j" by (simp add: kj)
    also have "\<dots> = min (?dp ! j) (min (?sp ! j) (?ip ! j))"
      using j ld ls li by (simp add: length_np_cumsum)
    also have "?dp ! j = cumulative_penalty (da, db) k"
      unfolding kj using j ld by (intro cumulative_curve_nth) simp
    also have "?sp ! j = cumulative_penalty (sa, sb) k"
      unfolding kj using j ls by (intro cumulative_curve_nth) simp
    also have "?ip ! j = cumulative_penalty (0, ib) k"
      unfolding kj using j li by (intro cumulative_curve_nth) simp
    finally show ?thesis .
  qed
  show ?thesis
    apply (rule exI[of _ "(0, ib)"])
    apply (rule exI[of _ ?betas])
    using i c lb cum by (simp add: d s)
qed

theorem combined_is_pointwise_minimum_witness:
  "(2::nat) \<le> 2
   \<and> (\<exists>inter betas.
           intermediate_capa_penalty (\<lambda>q df. q) (\<lambda>x df. x) 10 2 1 1 = Inr inter
         \<and> combined_capa_penalty (\<lambda>q df. q) (\<lambda>x df. x) 10 2 1 1 = Inr (0, betas)
         \<and> length betas = 2
         \<and> (\<forall>k. 1 \<le> k \<and> k \<le> 2 \<longrightarrow>
               cumulative_penalty (0, betas) k
               = min (cumulative_penalty (dense_capa_penalty 10 2 1 1) k)
                   (min (cumulative_penalty (sparse_capa_penalty 10 2 1 1) k)
                        (cumulative_penalty inter k))))"
  using combined_is_pointwise_minimum[of 2 "\<lambda>q df. q" "\<lambda>x df. x" 10 1 1]
  by simp

subsection \<open>Configuration errors\<close>

text \<open>
  Claim C6, as amended. A configuration with \<open>min_segment_length < 2\<close> or
  \<open>max_segment_length < min_segment_length\<close> raises an error in the constructor. An
  unknown penalty name for either penalty, and a dimension \<open>p < 2\<close> given to the
  intermediate policy, raise an error when the detector is fitted, where the penalties are
  computed from the shape of the data. Whether the constructor raises does not depend on
  the two penalty scales.
\<close>

theorem configuration_errors:
  "(min_segment_length self < 2 \<or> max_segment_length self < min_segment_length self
      \<longrightarrow> (\<exists>e. Mvcapa_init saving_factory self = Inl e))
   \<and> (\<not> known_penalty (collective_penalty self) \<or> \<not> known_penalty (point_penalty self)
      \<or> ((collective_penalty self = PenaltyName ''intermediate''
           \<or> point_penalty self = PenaltyName ''intermediate'') \<and> shape1 X < 2)
      \<longrightarrow> (\<exists>e. Mvcapa_fit chi2_ppf chi2_pdf self X = Inl e))
   \<and> (\<exists>e. Mvcapa_init saving_factory
             (self\<lparr>collective_penalty_scale := s, point_penalty_scale := s'\<rparr>) = Inl e)
     = (\<exists>e. Mvcapa_init saving_factory self = Inl e)"
proof (intro conjI impI)
  show "(\<exists>e. Mvcapa_init saving_factory
             (self\<lparr>collective_penalty_scale := s, point_penalty_scale := s'\<rparr>) = Inl e)
     = (\<exists>e. Mvcapa_init saving_factory self = Inl e)"
    by (auto simp: Mvcapa_init_def split: sum.splits if_splits)
next
  assume "min_segment_length self < 2 \<or> max_segment_length self < min_segment_length self"
  then show "\<exists>e. Mvcapa_init saving_factory self = Inl e"
    by (auto simp: Mvcapa_init_def split: sum.splits)
next
  assume a: "\<not> known_penalty (collective_penalty self) \<or> \<not> known_penalty (point_penalty self)
      \<or> ((collective_penalty self = PenaltyName ''intermediate''
           \<or> point_penalty self = PenaltyName ''intermediate'') \<and> shape1 X < 2)"
  show "\<exists>e. Mvcapa_fit chi2_ppf chi2_pdf self X = Inl e"
  proof (cases "check_capa_input X (min_segment_length self)")
    case (Inl e)
    then show ?thesis by (simp add: Mvcapa_fit_def)
  next
    case (Inr X')
    then have X': "X' = X" by (rule check_capa_input_same)
    have "\<exists>e. get_penalty_components chi2_ppf chi2_pdf self X = Inl e"
    proof -
      consider (c) "\<not> known_penalty (collective_penalty self)"
        | (p) "\<not> known_penalty (point_penalty self)"
        | (ci) "collective_penalty self = PenaltyName ''intermediate''" "shape1 X < 2"
        | (pi) "point_penalty self = PenaltyName ''intermediate''" "shape1 X < 2"
        using a by blast
      then show ?thesis
      proof cases
        case c
        from get_penalty_components_collective_error[OF unknown_penalty_factory[OF c]]
        show ?thesis by blast
      next
        case p
        from get_penalty_components_point_error[OF unknown_penalty_factory[OF p]]
        show ?thesis .
      next
        case ci
        have f: "capa_penalty_factory chi2_ppf chi2_pdf (collective_penalty self)
                 = Inr (intermediate_capa_penalty chi2_ppf chi2_pdf)"
          by (simp add: ci(1) intermediate_factory)
        have "intermediate_capa_penalty chi2_ppf chi2_pdf (shape0 X) (shape1 X) 1
                (collective_penalty_scale self) = Inl ValueError"
          using ci(2) by (simp add: intermediate_capa_penalty_def)
        from get_penalty_components_collective_func_error[OF f this] show ?thesis by blast
      next
        case pi
        have f: "capa_penalty_factory chi2_ppf chi2_pdf (point_penalty self)
                 = Inr (intermediate_capa_penalty chi2_ppf chi2_pdf)"
          by (simp add: pi(1) intermediate_factory)
        have "intermediate_capa_penalty chi2_ppf chi2_pdf (shape0 X) (shape1 X) 1
                (point_penalty_scale self) = Inl ValueError"
          using pi(2) by (simp add: intermediate_capa_penalty_def)
        from get_penalty_components_point_func_error[OF f this] show ?thesis .
      qed
    qed
    with Inr X' show ?thesis by (auto simp: Mvcapa_fit_def)
  qed
qed

theorem configuration_errors_witness:
  "(\<exists>e. Mvcapa_init (\<lambda>name. Inr two_teeth)
          \<lparr>saving_arg = ''mean'', collective_penalty = PenaltyName ''combined'',
           collective_penalty_scale = 2, point_penalty = PenaltyName ''lasso'',
           point_penalty_scale = 2, min_segment_length = 1, max_segment_length = 1000,
           ignore_point_anomalies = False\<rparr> = Inl e)
   \<and> (\<exists>e. Mvcapa_fit (\<lambda>q df. q) (\<lambda>x df. x)
          \<lparr>saving_arg = ''mean'', collective_penalty = PenaltyName ''combined'',
           collective_penalty_scale = 2, point_penalty = PenaltyName ''lasso'',
           point_penalty_scale = 2, min_segment_length = 1, max_segment_length = 1000,
           ignore_point_anomalies = False\<rparr>
          \<lparr>isna_any = False, shape0 = 5, shape1 = 1, frame_values = ()\<rparr> = Inl e)"
  using configuration_errors[of
      "\<lparr>saving_arg = ''mean'', collective_penalty = PenaltyName ''combined'',
           collective_penalty_scale = 2, point_penalty = PenaltyName ''lasso'',
           point_penalty_scale = 2, min_segment_length = 1, max_segment_length = 1000,
           ignore_point_anomalies = False\<rparr>"
      "\<lambda>name. Inr two_teeth"
      "\<lparr>isna_any = False, shape0 = 5, shape1 = 1, frame_values = ()\<rparr>"
      "\<lambda>q df. q" "\<lambda>x df. x" 0 0]
  by (simp add: known_penalty_def)

text \<open>
  Claim C6 as stated fails. The configuration of the detector's own test parameters with
  \<open>collective_penalty_scale = 0\<close> is constructed without an error and is fitted without an
  error; a configuration with the unknown penalty name \<open>lasso\<close> is constructed without an
  error.
\<close>

theorem zero_scale_and_unknown_penalty_construct:
  "collective_penalty_scale
     \<lparr>saving_arg = ''mean'', collective_penalty = PenaltyName ''combined'',
      collective_penalty_scale = 0, point_penalty = PenaltyName ''sparse'',
      point_penalty_scale = 2, min_segment_length = 2, max_segment_length = 1000,
      ignore_point_anomalies = False\<rparr> \<le> 0
   \<and> Mvcapa_init (\<lambda>name. Inr two_teeth)
       \<lparr>saving_arg = ''mean'', collective_penalty = PenaltyName ''combined'',
        collective_penalty_scale = 0, point_penalty = PenaltyName ''sparse'',
        point_penalty_scale = 2, min_segment_length = 2, max_segment_length = 1000,
        ignore_point_anomalies = False\<rparr>
     = Inr (\<lparr>saving_arg = ''mean'', collective_penalty = PenaltyName ''combined'',
            collective_penalty_scale = 0, point_penalty = PenaltyName ''sparse'',
            point_penalty_scale = 2, min_segment_length = 2, max_segment_length = 1000,
            ignore_point_anomalies = False\<rparr>, two_teeth)
   \<and> Mvcapa_fit (\<lambda>q df. q) (\<lambda>x df. x)
       \<lparr>saving_arg = ''mean'', collective_penalty = PenaltyName ''combined'',
        collective_penalty_scale = 0, point_penalty = PenaltyName ''sparse'',
        point_penalty_scale = 2, min_segment_length = 2, max_segment_length = 1000,
        ignore_point_anomalies = False\<rparr>
       \<lparr>isna_any = False, shape0 = 5, shape1 = 1, frame_values = ()\<rparr>
     = Inr (0, [0], 4 * ln 5, [0])
   \<and> \<not> known_penalty (PenaltyName ''lasso'')
   \<and> Mvcapa_init (\<lambda>name. Inr two_teeth)
       \<lparr>saving_arg = ''mean'', collective_penalty = PenaltyName ''lasso'',
        collective_penalty_scale = 2, point_penalty = PenaltyName ''sparse'',
        point_penalty_scale = 2, min_segment_length = 2, max_segment_length = 1000,
        ignore_point_anomalies = False\<rparr>
     = Inr (\<lparr>saving_arg = ''mean'', collective_penalty = PenaltyName ''lasso'',
            collective_penalty_scale = 2, point_penalty = PenaltyName ''sparse'',
            point_penalty_scale = 2, min_segment_length = 2, max_segment_length = 1000,
            ignore_point_anomalies = False\<rparr>, two_teeth)"
  by (simp add: Mvcapa_init_def Mvcapa_fit_def check_capa_input_def get_penalty_components_def
      capa_penalty_factory_def combined_capa_penalty_def dense_capa_penalty_def
      sparse_capa_penalty_def known_penalty_def)

subsection \<open>The number of anomalies and the penalty scale\<close>

text \<open>
  Claim C8, as amended. The statement is one of exact arithmetic: the arithmetic of the
  reals, which is that of the code on every run in which no \<^verbatim>\<open>float64\<close> operation rounds.
  There, for every saving function with \<open>p \<ge> 1\<close> components and every valid configuration,
  when the collective and the point penalty are the same constant \<open>alpha = scale * a\<close> with
  \<open>a > 0\<close> and all betas are zero (the shape of the dense policy, used for both kinds of
  anomaly), then for all scales \<open>s1 < s2\<close> the engine returns no more anomalies with scale
  \<open>s2\<close> than with scale \<open>s1\<close>. Every anomaly then costs the same \<open>p * scale * a\<close>, and the
  recurrence maximises the total saving minus that cost.

  The statement does not extend to runs in which sums round, where the recurrence compares
  rounded values. With four samples, one component, \<open>minl = 2\<close>, \<open>maxl = 4\<close>, \<open>a = 1\<close> and
  the savings \<open>2^53 + 4\<close> on \<open>(0, 1)\<close>, \<open>2.5\<close> on \<open>(2, 3)\<close> and \<open>2^53 + 6\<close> on \<open>(0, 3)\<close>, the
  \<^verbatim>\<open>float64\<close> code returns the one anomaly \<open>(0, 3)\<close> at scale \<open>0.5\<close> and the two anomalies
  \<open>(2, 3)\<close> and \<open>(0, 1)\<close> at scale \<open>1\<close>, where \<open>2^53 + 6 - 1\<close> rounds to \<open>2^53 + 4\<close> and
  \<open>2^53 + 4 + 1.5\<close> to \<open>2^53 + 6\<close>; in exact arithmetic both scales give the one anomaly
  \<open>(0, 3)\<close> (\<open>large_teeth_scale_half\<close>, \<open>large_teeth_scale_1\<close>).
\<close>

theorem fewer_anomalies_at_larger_scale:
  assumes "2 \<le> minl" and "minl \<le> maxl" and "1 \<le> p" and "\<forall>s e. length (saving s e) = p"
    and "0 < a" and "s1 < s2"
    and "run_mvcapa n saving (s1 * a) (replicate p 0) (s1 * a) (replicate p 0) minl maxl = Inr r1"
    and "run_mvcapa n saving (s2 * a) (replicate p 0) (s2 * a) (replicate p 0) minl maxl = Inr r2"
  shows "anomaly_count (Inr r2) \<le> anomaly_count (Inr r1)"
proof -
  from assms(1) have m1: "1 \<le> minl" by simp
  let ?z = "replicate p (0::real)"
  from anomaly_count_walk[OF m1 assms(7)] obtain st1 where
    fw1: "capa_forward n saving (s1 * a) ?z (s1 * a) ?z minl maxl = Inr st1" and
    n1: "anomaly_count (Inr r1) = length (anomaly_walk (opt_anomaly_starts st1) n)" by blast
  from anomaly_count_walk[OF m1 assms(8)] obtain st2 where
    fw2: "capa_forward n saving (s2 * a) ?z (s2 * a) ?z minl maxl = Inr st2" and
    n2: "anomaly_count (Inr r2) = length (anomaly_walk (opt_anomaly_starts st2) n)" by blast
  let ?w1 = "anomaly_walk (opt_anomaly_starts st1) n"
  let ?w2 = "anomaly_walk (opt_anomaly_starts st2) n"
  let ?X1 = "sum_list (map (raw_value saving) ?w1)"
  let ?X2 = "sum_list (map (raw_value saving) ?w2)"
  note tv = total_value_uniform[OF assms(3,4)]
  have a1: "admissible minl maxl n ?w1" by (rule anomaly_walk_admissible[OF m1 assms(2) fw1])
  have a2: "admissible minl maxl n ?w2" by (rule anomaly_walk_admissible[OF m1 assms(2) fw2])
  have v1: "opt_savings st1 ! n = total_value saving (s1 * a) ?z (s1 * a) ?z ?w1"
    by (rule anomaly_walk_value[OF assms(1,2) fw1 order_refl])
  have v2: "opt_savings st2 ! n = total_value saving (s2 * a) ?z (s2 * a) ?z ?w2"
    by (rule anomaly_walk_value[OF assms(1,2) fw2 order_refl])
  have o1: "total_value saving (s1 * a) ?z (s1 * a) ?z ?w2 \<le> opt_savings st1 ! n"
    by (rule admissible_bounded[OF m1 assms(2) fw1 a2 order_refl])
  have o2: "total_value saving (s2 * a) ?z (s2 * a) ?z ?w1 \<le> opt_savings st2 ! n"
    by (rule admissible_bounded[OF m1 assms(2) fw2 a1 order_refl])
  have c: "0 < real p * a" using assms(3,5) by simp
  have i1: "?X2 - real (length ?w2) * ((real p * a) * s1) \<le> ?X1 - real (length ?w1) * ((real p * a) * s1)"
    using o1 unfolding v1 tv by (simp add: mult.assoc mult.left_commute mult.commute)
  have i2: "?X1 - real (length ?w1) * ((real p * a) * s2) \<le> ?X2 - real (length ?w2) * ((real p * a) * s2)"
    using o2 unfolding v2 tv by (simp add: mult.assoc mult.left_commute mult.commute)
  from count_order[OF c assms(6) i1 i2] show ?thesis unfolding n1 n2 .
qed

theorem fewer_anomalies_at_larger_scale_witness:
  "(2::nat) \<le> 2 \<and> (1::real) < 20
   \<and> run_mvcapa 4 two_teeth (1 * 1) (replicate 1 0) (1 * 1) (replicate 1 0) 2 2
       = Inr ([0, 9, 9, 18], [(2, 3, [0]), (0, 1, [0])], [])
   \<and> run_mvcapa 4 two_teeth (20 * 1) (replicate 1 0) (20 * 1) (replicate 1 0) 2 2
       = Inr ([0, 0, 0, 0], [], [])
   \<and> anomaly_count (Inr ([0, 0, 0, 0], [], []) :: error + real list \<times> (nat \<times> nat \<times> nat list) list \<times> (nat \<times> nat \<times> nat list) list)
       \<le> anomaly_count (Inr ([0, 9, 9, 18], [(2, 3, [0]), (0, 1, [0])], []) :: error + real list \<times> (nat \<times> nat \<times> nat list) list \<times> (nat \<times> nat \<times> nat list) list)"
  using fewer_anomalies_at_larger_scale[of 2 2 1 two_teeth 1 1 20 4
      "([0, 9, 9, 18], [(2, 3, [0]), (0, 1, [0])], [])" "([0, 0, 0, 0], [], [])"]
    two_teeth_scale_1 two_teeth_scale_20 two_teeth_width
  by (simp add: anomaly_count_def)

text \<open>
  Claim C8 as stated fails. Three samples with one component, the dense penalty for
  collective and the sparse penalty for point anomalies, \<open>minl = 2\<close>, \<open>maxl = 3\<close>, and the
  savings \<open>17.1\<close> for the interval \<open>(0, 2)\<close> and \<open>8\<close> for each of the positions \<open>1\<close> and
  \<open>2\<close>: with scale \<open>1\<close> the engine returns the one collective anomaly \<open>(0, 2)\<close>, with scale
  \<open>3\<close> the two point anomalies \<open>(2, 2)\<close> and \<open>(1, 1)\<close>. A collective anomaly costs
  \<open>scale * (1 + 2 * sqrt (ln 3) + 2 * ln 3)\<close>, more than two point anomalies at
  \<open>scale * 2 * ln 3\<close> each, so a larger scale turns one anomaly into two.
\<close>

theorem more_anomalies_at_larger_scale:
  "(0::real) < 1 \<and> (1::real) < 3
   \<and> anomaly_count
        (run_mvcapa 3 split_saving
           (fst (dense_capa_penalty 3 1 1 1)) (snd (dense_capa_penalty 3 1 1 1))
           (fst (sparse_capa_penalty 3 1 1 1)) (snd (sparse_capa_penalty 3 1 1 1)) 2 3) = 1
   \<and> anomaly_count
        (run_mvcapa 3 split_saving
           (fst (dense_capa_penalty 3 1 1 3)) (snd (dense_capa_penalty 3 1 1 3))
           (fst (sparse_capa_penalty 3 1 1 3)) (snd (sparse_capa_penalty 3 1 1 3)) 2 3) = 2"
proof -
  let ?L = "ln (3::real)"
  let ?r = "sqrt ?L"
  note b = ln3_bounds sqrt_ln3_bounds
  have 1: "run_mvcapa 3 split_saving (1 * (1 + 2 * ?r + 2 * ?L)) [0] (2 * 1 * ?L) [0] 2 3
           = Inr ([0, 8 - 2 * 1 * ?L, 171 / 10 - 1 * (1 + 2 * ?r + 2 * ?L)], [(0, 2, [0])], [])"
  proof (rule split_run_collective)
    show "0 < 1 * (1 + 2 * ?r + 2 * ?L)" using b by argo
    show "2 * 1 * ?L < 8" using b by argo
    show "16 - 2 * (2 * 1 * ?L) < 171 / 10 - 1 * (1 + 2 * ?r + 2 * ?L)" using b by argo
  qed
  have 3: "run_mvcapa 3 split_saving (3 * (1 + 2 * ?r + 2 * ?L)) [0] (2 * 3 * ?L) [0] 2 3
           = Inr ([0, 8 - 2 * 3 * ?L, 16 - 2 * (2 * 3 * ?L)], [], [(2, 2, [0]), (1, 1, [0])])"
  proof (rule split_run_points)
    show "0 < 3 * (1 + 2 * ?r + 2 * ?L)" using b by argo
    show "2 * 3 * ?L < 8" using b by argo
    show "171 / 10 - 3 * (1 + 2 * ?r + 2 * ?L) < 16 - 2 * (2 * 3 * ?L)" using b by argo
  qed
  show ?thesis
    unfolding dense_sparse_values fst_conv snd_conv 1 3 by (simp add: anomaly_count_def)
qed

end
